theory Spec2Isabelle
  imports Main
begin

section \<open>Python values shared by the modules\<close>

text \<open>
  Exceptions of the Python source are values. \<open>ArgNotFound arg feature\<close> is the
  \<open>ValueError("Argument 'arg' not found for feature 'feature'")\<close> of
  \<open>GroupByProcessor\<close>; \<open>BodyError\<close> is whatever a user-supplied feature body
  raises; the others are the interpreter's and the libraries' own exceptions.
\<close>

datatype error =
    ArgNotFound string string
  | KeyError string
  | IndexError
  | ValueError
  | AttributeError
  | FileNotFoundError string
  | TypeError
  | OverflowError
  | RecursionError
  | BodyError

text \<open>
  Truthiness of an optional string: \<open>None\<close> and \<open>''\<close> are falsy, and
  \<open>a or b\<close> is \<open>a\<close> when \<open>a\<close> is truthy and \<open>b\<close> otherwise.
\<close>

fun truthy :: "string option \<Rightarrow> bool" where
  "truthy None = False"
| "truthy (Some s) = (s \<noteq> [])"

definition py_or :: "string option \<Rightarrow> string option \<Rightarrow> string option" where
  "py_or a b = (if truthy a then a else b)"

text \<open>\<open>t.startswith(k)\<close>\<close>

fun starts_with :: "'a list \<Rightarrow> 'a list \<Rightarrow> bool" where
  "starts_with [] t = True"
| "starts_with (k # ks) [] = False"
| "starts_with (k # ks) (c # cs) = (k = c \<and> starts_with ks cs)"

section \<open>features/store.py: FeatureStore\<close>

text \<open>
  A stored definition is either a Python function (of which the store and the resolver
  read the positional argument names \<open>co_varnames[:co_argcount]\<close>, and the detector
  the source text, when \<open>inspect.getsource\<close> can retrieve it) or a dict with the keys
  \<open>'udf'\<close> (code text) and, optionally, \<open>'args'\<close>.
\<close>

datatype feature_def =
    PyCallable (co_args: "string list") (getsource: "string option")
  | PyDict (udf: string) (dict_args: "string list option")

record feature_store =
  features :: "string \<rightharpoonup> feature_def"
  current_model :: "string option"
  feature_index :: "string \<rightharpoonup> string list"

definition new_store :: feature_store where
  "new_store = \<lparr>features = Map.empty, current_model = None, feature_index = Map.empty\<rparr>"

text \<open>\<open>key = f"{model}:{name}" if model else name\<close>\<close>

definition scoped_key :: "string option \<Rightarrow> string \<Rightarrow> string" where
  "scoped_key model name = (if truthy model then the model @ '':'' @ name else name)"

definition store_feature ::
  "string \<Rightarrow> feature_def \<Rightarrow> string option \<Rightarrow> feature_store \<Rightarrow> feature_store" where
  "store_feature name fd model st =
     (let model' = py_or model (current_model st);
          key = scoped_key model' name
      in st\<lparr>features := (features st)(key \<mapsto> fd)\<rparr>)"

definition get_feature ::
  "string \<Rightarrow> string option \<Rightarrow> feature_store \<Rightarrow> feature_def option" where
  "get_feature name model st =
     (let model' = py_or model (current_model st);
          key = scoped_key model' name;
          fd = features st key
      in if fd = None \<and> truthy model' then features st name else fd)"

definition has_feature :: "string \<Rightarrow> feature_store \<Rightarrow> bool" where
  "has_feature name st = (name \<in> dom (features st))"

text \<open>
  \<open>load_from_filesystem(model, feature)\<close> reads the feature's files from the model's
  folder, falling back to the \<open>common\<close> folder, and stores what it read under the
  model's scope. The directory tree is a parameter \<open>disk\<close>: folder and feature name
  to the definition read there.
\<close>

type_synonym disk = "string \<Rightarrow> string \<Rightarrow> feature_def option"

definition common_folder :: string where
  "common_folder = ''common''"

definition load_from_filesystem ::
  "disk \<Rightarrow> string \<Rightarrow> string \<Rightarrow> feature_store \<Rightarrow> error + feature_store" where
  "load_from_filesystem dk model feature st =
     (case dk model feature of
        Some fd \<Rightarrow> Inr (store_feature feature fd (Some model) st)
      | None \<Rightarrow>
          (case dk common_folder feature of
             Some fd \<Rightarrow> Inr (store_feature feature fd (Some model) st)
           | None \<Rightarrow> Inl (FileNotFoundError feature)))"

text \<open>
  \<open>get_feature_index(model)\<close>: the cached list when there is one; otherwise the
  feature folders of the model's folder (\<open>listing\<close>: \<open>None\<close> when the folder does
  not exist), which it caches.
\<close>

definition get_feature_index ::
  "(string \<Rightarrow> string list option) \<Rightarrow> string \<Rightarrow> feature_store \<Rightarrow> string list \<times> feature_store" where
  "get_feature_index listing model st =
     (case feature_index st model of
        Some names \<Rightarrow> (names, st)
      | None \<Rightarrow>
          (case listing model of
             None \<Rightarrow> ([], st\<lparr>feature_index := (feature_index st)(model \<mapsto> [])\<rparr>)
           | Some feature_names \<Rightarrow>
               (feature_names, st\<lparr>feature_index := (feature_index st)(model \<mapsto> feature_names)\<rparr>)))"

section \<open>features/resolver.py: DependencyResolver\<close>

text \<open>
  \<open>normalize_to_list(group_by, empty_indicators=[None, ''])\<close> on the shapes a
  \<open>group_by\<close> takes.
\<close>

datatype group_by_col = GbNone | GbStr string | GbList "string list"

fun normalize_to_list :: "group_by_col \<Rightarrow> string list" where
  "normalize_to_list GbNone = []"
| "normalize_to_list (GbStr s) = (if s = [] then [] else [s])"
| "normalize_to_list (GbList cols) = cols"

text \<open>What stays the same during one resolution.\<close>

record resolver_env =
  available_cols :: "string list"
  group_by_list :: "string list"
  feat_idx :: "string list"
  env_model :: string
  disk_tree :: disk

definition arg_list :: "feature_def \<Rightarrow> string list" where
  "arg_list feature_def =
     (case feature_def of
        PyCallable names src \<Rightarrow> names
      | PyDict code None \<Rightarrow> []
      | PyDict code (Some names) \<Rightarrow> names)"

definition add_input :: "string \<Rightarrow> string list \<Rightarrow> string list" where
  "add_input feature input_cols =
     (if feature \<notin> set input_cols then input_cols @ [feature] else input_cols)"

definition add_exec :: "string \<Rightarrow> string list \<Rightarrow> string list" where
  "add_exec feature exec_seq =
     (if feature \<notin> set exec_seq then exec_seq @ [feature] else exec_seq)"

text \<open>
  \<open>_resolve_feature\<close> threads the store (which loading changes), \<open>input_cols\<close> and
  \<open>exec_seq\<close>; \<open>resolve_args\<close> is the loop over \<open>arg_list\<close> inside one
  call.

  The recursion is bounded by the interpreter's stack. The first argument, \<open>room\<close>,
  is the number of nested activations of \<open>_resolve_feature\<close> the stack still has
  room for: not the interpreter's recursion limit itself, but what is left of it for this
  recursion once the frames of the callers and of \<open>resolve_dependencies\<close> and the
  frames that the calls inside an activation need (the logger's, the store's) are taken
  off. An activation for which there is no room is a \<open>RecursionError\<close>. (The
  parameter \<open>depth\<close> of the source only indents the log.)
\<close>

type_synonym resolution = "feature_store \<times> string list \<times> string list"

fun resolve_feature :: "nat \<Rightarrow> resolver_env \<Rightarrow> string \<Rightarrow> resolution \<Rightarrow> error + resolution"
  and resolve_args :: "nat \<Rightarrow> resolver_env \<Rightarrow> string list \<Rightarrow> resolution \<Rightarrow> error + resolution"
where
  "resolve_feature 0 env feature acc = Inl RecursionError"
| "resolve_feature (Suc room) env feature (st, input_cols, exec_seq) =
     (if feature \<in> set (available_cols env)
      then Inr (st, add_input feature input_cols, exec_seq)
      else if \<not> has_feature feature st \<and> feature \<notin> set (feat_idx env)
      then Inr (st, add_input feature input_cols, exec_seq)
      else
        (case (if \<not> has_feature feature st
               then load_from_filesystem (disk_tree env) (env_model env) feature st
               else Inr st) of
           Inl e \<Rightarrow> Inl e
         | Inr st1 \<Rightarrow>
             (case get_feature feature None st1 of
                None \<Rightarrow> Inl AttributeError
              | Some feature_def \<Rightarrow>
                  (case resolve_args room env (arg_list feature_def) (st1, input_cols, exec_seq) of
                     Inl e \<Rightarrow> Inl e
                   | Inr (st2, input_cols2, exec_seq2) \<Rightarrow>
                       Inr (st2, input_cols2, add_exec feature exec_seq2)))))"
| "resolve_args room env [] acc = Inr acc"
| "resolve_args room env (arg # rest) acc =
     (if arg \<notin> set (group_by_list env)
      then (case resolve_feature room env arg acc of
              Inl e \<Rightarrow> Inl e
            | Inr acc' \<Rightarrow> resolve_args room env rest acc')
      else resolve_args room env rest acc)"

text \<open>The loop of \<open>resolve_dependencies\<close> over \<open>output_cols\<close>.\<close>

fun resolve_outputs :: "nat \<Rightarrow> resolver_env \<Rightarrow> string list \<Rightarrow> resolution \<Rightarrow> error + resolution" where
  "resolve_outputs room env [] acc = Inr acc"
| "resolve_outputs room env (feature # rest) acc =
     (case resolve_feature room env feature acc of
        Inl e \<Rightarrow> Inl e
      | Inr acc' \<Rightarrow> resolve_outputs room env rest acc')"

text \<open>
  \<open>_extract_external_columns\<close>: \<open>external_data\<close> is given by its source names in
  dict order (none for \<open>None\<close> or an empty dict).
\<close>

fun extract_external_columns ::
  "string list \<Rightarrow> string list \<Rightarrow> (string \<times> string list) list \<times> string list" where
  "extract_external_columns input_cols [] = ([], [])"
| "extract_external_columns input_cols (ext_name # rest) =
     (let prefix = ext_name @ ''_'';
          full_col_names = filter (starts_with prefix) input_cols;
          matching_cols = map (drop (length prefix)) full_col_names;
          (ext_cols_dict, ext_cols_list) = extract_external_columns input_cols rest
      in if matching_cols \<noteq> []
         then ((ext_name, matching_cols) # ext_cols_dict, full_col_names @ ext_cols_list)
         else (ext_cols_dict, ext_cols_list))"

record execution_plan =
  plan_input_cols :: "string list"
  plan_exec_seq :: "string list"
  plan_ext_dict :: "(string \<times> string list) list"
  plan_ext_list :: "string list"

text \<open>
  \<open>resolve_dependencies\<close>. Its first argument is the room the stack has for the
  recursion when it calls \<open>_resolve_feature\<close>, as above; \<open>listing\<close> and \<open>dk\<close>
  are the feature folders on disk, as \<open>get_feature_index\<close> and
  \<open>load_from_filesystem\<close> read them.
\<close>

definition resolve_dependencies ::
  "nat \<Rightarrow> (string \<Rightarrow> string list option) \<Rightarrow> disk \<Rightarrow> string list \<Rightarrow> string list \<Rightarrow> group_by_col
     \<Rightarrow> string \<Rightarrow> string list \<Rightarrow> feature_store \<Rightarrow> error + execution_plan \<times> feature_store" where
  "resolve_dependencies room listing dk output_cols available group_by_arg model external_data st =
     (let (idx, st0) = get_feature_index listing model st;
          env = \<lparr>available_cols = available, group_by_list = normalize_to_list group_by_arg,
                 feat_idx = idx, env_model = model, disk_tree = dk\<rparr>
      in case resolve_outputs room env output_cols (st0, [], []) of
           Inl e \<Rightarrow> Inl e
         | Inr (st', input_cols, exec_seq) \<Rightarrow>
             (let (ext_cols_dict, ext_cols_list) = extract_external_columns input_cols external_data
              in Inr (\<lparr>plan_input_cols = input_cols, plan_exec_seq = exec_seq,
                       plan_ext_dict = ext_cols_dict, plan_ext_list = ext_cols_list\<rparr>, st')))"

section \<open>features/detector.py: FeatureTypeDetector\<close>

text \<open>
  The text the detector scans is a Python \<open>str\<close>: a sequence of Unicode code points,
  of any value. The keywords are ASCII literals; \<open>codepoints\<close> reads one as a
  \<open>str\<close>.
\<close>

type_synonym py_str = "nat list"

definition codepoints :: "string \<Rightarrow> py_str" where
  "codepoints s = map of_char s"

definition AGGREGATION_KEYWORDS :: "string list" where
  "AGGREGATION_KEYWORDS =
     [''np.vectorize('', ''np.where('', ''#gby'', ''.sum('', ''.max('', ''.min('',
      ''.unique('', ''.nunique('', ''.mean('', ''.median('', ''.percentile('',
      ''.take('', ''[first_value]'', ''.nansum('', ''np.nanmax('', ''np.nanmin('',
      ''flag1'', ''rows_out'', ''agg_out'', ''#agg'', ''.count_nonzero('', ''zip('',
      ''counter('']"

text \<open>\<open>needle in haystack\<close> on strings: a scan for the first position that matches.\<close>

fun str_in :: "'a list \<Rightarrow> 'a list \<Rightarrow> bool" where
  "str_in k [] = (k = [])"
| "str_in k (c # cs) = (starts_with k (c # cs) \<or> str_in k cs)"

text \<open>
  The argument of \<open>is_aggregation\<close> is a callable (of which only the retrievable
  source matters; \<open>None\<close> is the \<open>OSError\<close>/\<open>TypeError\<close> of \<open>getsource\<close>) or
  anything else, of which \<open>str(feature_def)\<close> is taken.

  \<open>str.lower\<close> is the interpreter's: Unicode lower-casing, which is not a map over the
  characters (it can lengthen a string, and it looks at the context of a capital sigma).
  It is the parameter \<open>str_lower\<close> of the model.
\<close>

datatype feature_body = Callable "py_str option" | CodeStr py_str

definition is_aggregation :: "(py_str \<Rightarrow> py_str) \<Rightarrow> feature_body \<Rightarrow> bool" where
  "is_aggregation str_lower body =
     (case body of
        Callable None \<Rightarrow> False
      | Callable (Some feature_text) \<Rightarrow>
          list_ex (\<lambda>keyword. str_in (str_lower (codepoints keyword)) (str_lower feature_text))
            AGGREGATION_KEYWORDS
      | CodeStr feature_text \<Rightarrow>
          list_ex (\<lambda>keyword. str_in (str_lower (codepoints keyword)) (str_lower feature_text))
            AGGREGATION_KEYWORDS)"

definition body_text :: "feature_body \<Rightarrow> py_str option" where
  "body_text body = (case body of Callable src \<Rightarrow> src | CodeStr s \<Rightarrow> Some s)"

section \<open>execution/calculator.py: FeatureCalculator\<close>

text \<open>
  Cell values are \<open>NA\<close> (pandas' missing value), numbers and text. What the engine
  passes to a feature body is a scalar or a whole one-dimensional array; a body is an
  opaque function from its positional arguments to a result, or to \<open>None\<close> when it
  raises (\<open>BodyError\<close>, whatever the exception).
\<close>

datatype cell = NA | Num int | Txt string

datatype arg_data = Scalar cell | Array "cell list"

type_synonym feature_func = "arg_data list \<Rightarrow> arg_data option"

definition call_body :: "feature_func \<Rightarrow> arg_data list \<Rightarrow> error + arg_data" where
  "call_body func args = (case func args of None \<Rightarrow> Inl BodyError | Some v \<Rightarrow> Inr v)"

text \<open>
  \<open>np.vectorize(func)(*args)\<close>, as numpy's \<open>_vectorize_call\<close> and
  \<open>_get_ufunc_and_otypes\<close> have it. With no argument the result is \<open>func()\<close>, as
  it is. Otherwise an argument of size 0 is refused; \<open>func\<close> is called on the first
  element of every argument, and the element type of the result array is inferred from
  what it returns; the arguments are broadcast against each other (a scalar and an array
  of length 1 stretch to the common length, other lengths must agree); \<open>func\<close> is
  called on the elements of each position in turn; and the results are converted to the
  inferred element type (\<open>asanyarray(outputs, dtype=otypes[0])\<close>), one by one in
  position order.

  That conversion is numpy's own: it can change a value or raise \<open>ValueError\<close>,
  \<open>OverflowError\<close> or \<open>TypeError\<close>. It is the parameter \<open>cast\<close> of the model:
  \<open>cast first r\<close> is what the result \<open>r\<close> becomes in an array whose element type
  was inferred from the result \<open>first\<close>.
\<close>

datatype numpy_error = NpValueError | NpOverflowError | NpTypeError

fun raise_np :: "numpy_error \<Rightarrow> error" where
  "raise_np NpValueError = ValueError"
| "raise_np NpOverflowError = OverflowError"
| "raise_np NpTypeError = TypeError"

type_synonym numpy_cast = "arg_data \<Rightarrow> arg_data \<Rightarrow> numpy_error + cell"

fun size_of :: "arg_data \<Rightarrow> nat" where
  "size_of (Scalar c) = 1"
| "size_of (Array xs) = length xs"

fun array_lengths :: "arg_data list \<Rightarrow> nat list" where
  "array_lengths [] = []"
| "array_lengths (Scalar c # as) = array_lengths as"
| "array_lengths (Array xs # as) = length xs # array_lengths as"

fun elem_at :: "nat \<Rightarrow> arg_data \<Rightarrow> cell" where
  "elem_at j (Scalar c) = c"
| "elem_at j (Array xs) = (if length xs = 1 then xs ! 0 else xs ! j)"

definition row_args :: "arg_data list \<Rightarrow> nat \<Rightarrow> arg_data list" where
  "row_args args j = map (\<lambda>a. Scalar (elem_at j a)) args"

fun collect :: "(error + arg_data) list \<Rightarrow> error + arg_data list" where
  "collect [] = Inr []"
| "collect (Inl e # rs) = Inl e"
| "collect (Inr v # rs) =
     (case collect rs of Inl e \<Rightarrow> Inl e | Inr vs \<Rightarrow> Inr (v # vs))"

fun cast_all :: "numpy_cast \<Rightarrow> arg_data \<Rightarrow> arg_data list \<Rightarrow> error + cell list" where
  "cast_all cast first [] = Inr []"
| "cast_all cast first (r # rs) =
     (case cast first r of
        Inl e \<Rightarrow> Inl (raise_np e)
      | Inr c \<Rightarrow> (case cast_all cast first rs of Inl e \<Rightarrow> Inl e | Inr cs \<Rightarrow> Inr (c # cs)))"

text \<open>
  What the call returns: the plain value of \<open>func()\<close>, an array without dimension
  (every argument a scalar), or a one-dimensional array.
\<close>

datatype vectorized = Plain arg_data | ZeroDim cell | OneDim "cell list"

definition np_vectorize :: "numpy_cast \<Rightarrow> feature_func \<Rightarrow> arg_data list \<Rightarrow> error + vectorized" where
  "np_vectorize cast func args =
     (if args = [] then
        (case call_body func [] of Inl e \<Rightarrow> Inl e | Inr v \<Rightarrow> Inr (Plain v))
      else if list_ex (\<lambda>a. size_of a = 0) args then Inl ValueError
      else
        (case call_body func (row_args args 0) of
           Inl e \<Rightarrow> Inl e
         | Inr first \<Rightarrow>
             (case array_lengths args of
                [] \<Rightarrow>
                  (case cast first first of
                     Inl e \<Rightarrow> Inl (raise_np e)
                   | Inr c \<Rightarrow> Inr (ZeroDim c))
              | l # ls \<Rightarrow>
                  (let n = fold max ls l in
                   if list_all (\<lambda>k. k = 1 \<or> k = n) (l # ls)
                   then (case collect (map (\<lambda>j. call_body func (row_args args j)) [0..<n]) of
                           Inl e \<Rightarrow> Inl e
                         | Inr outputs \<Rightarrow>
                             (case cast_all cast first outputs of
                                Inl e \<Rightarrow> Inl e
                              | Inr cs \<Rightarrow> Inr (OneDim cs)))
                   else Inl ValueError))))"

text \<open>
  \<open>calculate_filter\<close> returns the vectorized result after formatting a debug line
  with \<open>result.shape\<close> and \<open>len(result)\<close>: the plain value that \<open>func()\<close>
  returned for no argument has no \<open>shape\<close> (\<open>AttributeError\<close>) unless it is an
  array itself, and an array without dimension has no \<open>len\<close> (\<open>TypeError\<close>).
  Every exception is re-raised.
\<close>

definition calculate_filter ::
  "numpy_cast \<Rightarrow> string \<Rightarrow> feature_func \<Rightarrow> arg_data list \<Rightarrow> error + cell list" where
  "calculate_filter cast feature_name func args_data =
     (case np_vectorize cast func args_data of
        Inl e \<Rightarrow> Inl e
      | Inr (Plain (Scalar c)) \<Rightarrow> Inl AttributeError
      | Inr (Plain (Array cs)) \<Rightarrow> Inr cs
      | Inr (ZeroDim c) \<Rightarrow> Inl TypeError
      | Inr (OneDim cs) \<Rightarrow> Inr cs)"

definition calculate_attribute ::
  "string \<Rightarrow> feature_func \<Rightarrow> arg_data list \<Rightarrow> error + arg_data" where
  "calculate_attribute feature_name func args_data = call_body func args_data"

section \<open>execution/groupby.py: GroupByProcessor\<close>

text \<open>
  A DataFrame is its number of rows and its columns in order, each a name and one cell
  per row. \<open>pd.DataFrame()\<close> has neither rows nor columns.
\<close>

record frame =
  nrows :: nat
  columns :: "(string \<times> cell list) list"

definition empty_frame :: frame where
  "empty_frame = \<lparr>nrows = 0, columns = []\<rparr>"

definition colnames :: "frame \<Rightarrow> string list" where
  "colnames df = map fst (columns df)"

definition get_col :: "frame \<Rightarrow> string \<Rightarrow> cell list option" where
  "get_col df name = map_of (columns df) name"

text \<open>\<open>df.empty\<close>: some axis has length 0.\<close>

definition is_empty :: "frame \<Rightarrow> bool" where
  "is_empty df = (nrows df = 0 \<or> columns df = [])"

text \<open>
  \<open>df[name] = values\<close>: an array must have one value per row (\<open>ValueError\<close>
  otherwise); an existing column is replaced in place, a new one is appended.
\<close>

definition put_col :: "string \<Rightarrow> cell list \<Rightarrow> (string \<times> cell list) list \<Rightarrow> (string \<times> cell list) list" where
  "put_col name vals cols =
     (if name \<in> set (map fst cols)
      then map (\<lambda>(n, vs). if n = name then (n, vals) else (n, vs)) cols
      else cols @ [(name, vals)])"

definition set_column :: "string \<Rightarrow> cell list \<Rightarrow> frame \<Rightarrow> error + frame" where
  "set_column name vals df =
     (if length vals \<noteq> nrows df then Inl ValueError
      else Inr (df\<lparr>columns := put_col name vals (columns df)\<rparr>))"

text \<open>\<open>df[name] = scalar\<close> fills the column with the scalar.\<close>

definition set_scalar_column :: "string \<Rightarrow> cell \<Rightarrow> frame \<Rightarrow> frame" where
  "set_scalar_column name c df = df\<lparr>columns := put_col name (replicate (nrows df) c) (columns df)\<rparr>"

text \<open>
  \<open>cfg_model\<close>: the entries the processor reads. \<open>ext_cols\<close> is
  \<open>cfg_model.get('ext_cols', {}).get('list', [])\<close>.
\<close>

record cfg_model =
  exec_seq :: "string list"
  feature_funcs :: "string \<rightharpoonup> feature_func"
  feature_args :: "string \<rightharpoonup> string list"
  feature_groupby_flg :: "string \<rightharpoonup> bool"
  ext_cols :: "string list"
  group_by :: group_by_col

text \<open>
  The working state of one group: the row table, the scalar map, the filters computed so
  far, and the calls made to the calculator, in order.
\<close>

datatype calc_call = FilterCall string | AttributeCall string

record group_state =
  data_in :: frame
  agg_results :: "string \<rightharpoonup> arg_data"
  filters_calculated :: "string list"
  calls :: "calc_call list"

text \<open>
  The argument loop of \<open>process_group\<close>: the accumulator is \<open>args_data\<close>,
  \<open>in_flg\<close>, \<open>out_flg\<close>. \<open>data_in[arg].values[0]\<close> raises \<open>KeyError\<close> for a
  missing column and \<open>IndexError\<close> on a table without rows.
\<close>

fun prepare_args ::
  "string list \<Rightarrow> group_state \<Rightarrow> string \<Rightarrow> string list \<Rightarrow> arg_data list \<times> bool \<times> bool
     \<Rightarrow> error + arg_data list \<times> bool \<times> bool" where
  "prepare_args ext_cols_list st feature [] acc = Inr acc"
| "prepare_args ext_cols_list st feature (arg # rest) (args_data, in_flg, out_flg) =
     (case agg_results st arg of
        Some v \<Rightarrow>
          prepare_args ext_cols_list st feature rest (args_data @ [v], in_flg, True)
      | None \<Rightarrow>
          if arg \<in> set ext_cols_list then
            (case get_col (data_in st) arg of
               None \<Rightarrow> Inl (KeyError arg)
             | Some [] \<Rightarrow> Inl IndexError
             | Some (v # vs) \<Rightarrow>
                 prepare_args ext_cols_list st feature rest (args_data @ [Scalar v], in_flg, True))
          else
            (case get_col (data_in st) arg of
               Some vals \<Rightarrow>
                 prepare_args ext_cols_list st feature rest (args_data @ [Array vals], True, out_flg)
             | None \<Rightarrow> Inl (ArgNotFound arg feature)))"

text \<open>
  \<open>cfg_model['feature_funcs'][feature]\<close> and its two neighbours: a missing entry is a
  \<open>KeyError\<close>.
\<close>

definition feature_meta ::
  "cfg_model \<Rightarrow> string \<Rightarrow> error + feature_func \<times> string list \<times> bool" where
  "feature_meta cfg feature =
     (case feature_funcs cfg feature of
        None \<Rightarrow> Inl (KeyError feature)
      | Some func \<Rightarrow>
          (case feature_args cfg feature of
             None \<Rightarrow> Inl (KeyError feature)
           | Some args \<Rightarrow>
               (case feature_groupby_flg cfg feature of
                  None \<Rightarrow> Inl (KeyError feature)
                | Some groupby_flg \<Rightarrow> Inr (func, args, groupby_flg))))"

text \<open>
  One iteration of the single loop over \<open>exec_seq\<close>. The check
  \<open>len(args_data) != len(args)\<close> after the argument loop has no branch here: every
  iteration of that loop appends one value or raises.
\<close>

definition group_step ::
  "numpy_cast \<Rightarrow> cfg_model \<Rightarrow> group_state \<Rightarrow> string \<Rightarrow> error + group_state" where
  "group_step cast cfg st feature =
     (if feature \<in> set (colnames (data_in st)) then Inr st
      else
        (case feature_meta cfg feature of
           Inl e \<Rightarrow> Inl e
         | Inr (func, args, groupby_flg) \<Rightarrow>
             (case prepare_args (ext_cols cfg) st feature args ([], False, False) of
                Inl e \<Rightarrow> Inl e
              | Inr (args_data, in_flg, out_flg) \<Rightarrow>
                  if in_flg \<and> \<not> groupby_flg then
                    (case calculate_filter cast feature func args_data of
                       Inl e \<Rightarrow> Inl e
                     | Inr col \<Rightarrow>
                         (case set_column feature col (data_in st) of
                            Inl e \<Rightarrow> Inl e
                          | Inr df \<Rightarrow>
                              Inr (st\<lparr>data_in := df,
                                      filters_calculated := filters_calculated st @ [feature],
                                      calls := calls st @ [FilterCall feature]\<rparr>)))
                  else
                    (case calculate_attribute feature func args_data of
                       Inl e \<Rightarrow> Inl e
                     | Inr v \<Rightarrow>
                         Inr (st\<lparr>agg_results := (agg_results st)(feature \<mapsto> v),
                                 calls := calls st @ [AttributeCall feature]\<rparr>)))))"

fun group_loop ::
  "numpy_cast \<Rightarrow> cfg_model \<Rightarrow> group_state \<Rightarrow> string list \<Rightarrow> error + group_state" where
  "group_loop cast cfg st [] = Inr st"
| "group_loop cast cfg st (feature # rest) =
     (case group_step cast cfg st feature of
        Inl e \<Rightarrow> Inl e
      | Inr st' \<Rightarrow> group_loop cast cfg st' rest)"

definition init_group :: "frame \<Rightarrow> group_state" where
  "init_group group_df =
     \<lparr>data_in = group_df, agg_results = Map.empty, filters_calculated = [], calls = []\<rparr>"

definition process_group :: "numpy_cast \<Rightarrow> frame \<Rightarrow> cfg_model \<Rightarrow> error + group_state" where
  "process_group cast group_df cfg = group_loop cast cfg (init_group group_df) (exec_seq cfg)"

text \<open>
  \<open>_process_no_grouping\<close> (enrichment mode): the working state is the enriched table,
  the filters computed, and the features a warning was logged for.
\<close>

record enrich_state =
  data_enriched :: frame
  filters_added :: "string list"
  skip_warnings :: "string list"
  filter_calls :: "calc_call list"

fun enrich_args :: "frame \<Rightarrow> string \<Rightarrow> string list \<Rightarrow> arg_data list \<Rightarrow> error + arg_data list" where
  "enrich_args df feature [] args_data = Inr args_data"
| "enrich_args df feature (arg # rest) args_data =
     (case get_col df arg of
        Some vals \<Rightarrow> enrich_args df feature rest (args_data @ [Array vals])
      | None \<Rightarrow> Inl (ArgNotFound arg feature))"

definition enrich_step ::
  "numpy_cast \<Rightarrow> cfg_model \<Rightarrow> enrich_state \<Rightarrow> string \<Rightarrow> error + enrich_state" where
  "enrich_step cast cfg st feature =
     (if feature \<in> set (colnames (data_enriched st)) then Inr st
      else
        (case feature_meta cfg feature of
           Inl e \<Rightarrow> Inl e
         | Inr (func, args, groupby_flg) \<Rightarrow>
             if groupby_flg then Inr (st\<lparr>skip_warnings := skip_warnings st @ [feature]\<rparr>)
             else
               (case enrich_args (data_enriched st) feature args [] of
                  Inl e \<Rightarrow> Inl e
                | Inr args_data \<Rightarrow>
                    (case calculate_filter cast feature func args_data of
                       Inl e \<Rightarrow> Inl e
                     | Inr col \<Rightarrow>
                         (case set_column feature col (data_enriched st) of
                            Inl e \<Rightarrow> Inl e
                          | Inr df \<Rightarrow>
                              Inr (st\<lparr>data_enriched := df,
                                      filters_added := filters_added st @ [feature],
                                      filter_calls := filter_calls st @ [FilterCall feature]\<rparr>))))))"

fun enrich_loop ::
  "numpy_cast \<Rightarrow> cfg_model \<Rightarrow> enrich_state \<Rightarrow> string list \<Rightarrow> error + enrich_state" where
  "enrich_loop cast cfg st [] = Inr st"
| "enrich_loop cast cfg st (feature # rest) =
     (case enrich_step cast cfg st feature of
        Inl e \<Rightarrow> Inl e
      | Inr st' \<Rightarrow> enrich_loop cast cfg st' rest)"

definition init_enrich :: "frame \<Rightarrow> enrich_state" where
  "init_enrich df =
     \<lparr>data_enriched = df, filters_added = [], skip_warnings = [], filter_calls = []\<rparr>"

text \<open>
  The result is \<open>(filters_df, attrs_df)\<close>; the model returns the final state as well,
  for \<open>cfg_model['exec_fltrs']\<close> and the warnings.
\<close>

definition process_no_grouping ::
  "numpy_cast \<Rightarrow> frame \<Rightarrow> cfg_model \<Rightarrow> error + frame \<times> frame \<times> enrich_state" where
  "process_no_grouping cast df cfg =
     (case enrich_loop cast cfg (init_enrich df) (exec_seq cfg) of
        Inl e \<Rightarrow> Inl e
      | Inr st \<Rightarrow> Inr (data_enriched st, empty_frame, st))"

text \<open>
  \<open>process_all_groups\<close>, the grouped case. \<open>DataFrame.groupby(...).apply\<close> is
  pandas' own: the model starts from the groups it yields, each a key (a scalar, or a
  tuple for several columns) and the group's rows without the key columns.
  \<open>apply_groups\<close> is the calls \<open>apply\<close> makes to \<open>process_group\<close>, one per
  group in order, for a table that has at least one group; a table without groups is
  dealt with in \<open>grouped_filters\<close> below.
\<close>

datatype group_value = GScalar cell | GTuple "cell list"

fun apply_groups ::
  "numpy_cast \<Rightarrow> cfg_model \<Rightarrow> (group_value \<times> frame) list \<Rightarrow> error + (group_value \<times> group_state) list" where
  "apply_groups cast cfg [] = Inr []"
| "apply_groups cast cfg ((group_value, group_df) # rest) =
     (case process_group cast group_df cfg of
        Inl e \<Rightarrow> Inl e
      | Inr result \<Rightarrow>
          (case apply_groups cast cfg rest of
             Inl e \<Rightarrow> Inl e
           | Inr results \<Rightarrow> Inr ((group_value, result) # results)))"

text \<open>
  Re-attaching the key: \<open>df[col] = group_value[i] if isinstance(group_value, tuple) else
  group_value\<close> for a list of key columns, \<open>df[group_by_col] = group_value\<close> otherwise
  (a tuple assigned to a column is a sequence of row values). The grouped case is not
  entered without a key (\<open>process_all_groups_filters\<close> below), so the equation for
  \<open>GbNone\<close> only makes the function total.
\<close>

fun attach_cols :: "string list \<Rightarrow> nat \<Rightarrow> group_value \<Rightarrow> frame \<Rightarrow> error + frame" where
  "attach_cols [] i gv df = Inr df"
| "attach_cols (col # rest) i (GScalar c) df =
     attach_cols rest (Suc i) (GScalar c) (set_scalar_column col c df)"
| "attach_cols (col # rest) i (GTuple cs) df =
     (if i < length cs
      then attach_cols rest (Suc i) (GTuple cs) (set_scalar_column col (cs ! i) df)
      else Inl IndexError)"

fun attach_group_by :: "group_by_col \<Rightarrow> group_value \<Rightarrow> frame \<Rightarrow> error + frame" where
  "attach_group_by (GbList cols) gv df = attach_cols cols 0 gv df"
| "attach_group_by (GbStr col) (GScalar c) df = Inr (set_scalar_column col c df)"
| "attach_group_by (GbStr col) (GTuple cs) df = set_column col cs df"
| "attach_group_by GbNone gv df = Inl (KeyError [])"

text \<open>\<open>df.dropna(axis=1, how='all')\<close>: a column whose every cell is NA goes.\<close>

definition all_na :: "cell list \<Rightarrow> bool" where
  "all_na vals = list_all (\<lambda>c. c = NA) vals"

definition dropna_all_columns :: "frame \<Rightarrow> frame" where
  "dropna_all_columns df = df\<lparr>columns := filter (\<lambda>(name, vals). \<not> all_na vals) (columns df)\<rparr>"

text \<open>
  \<open>pd.concat(frames, ignore_index=True)\<close>: the rows in order; the columns are the
  union of the frames' columns in order of first appearance, NA where a frame has none.
\<close>

definition first_seen :: "string list \<Rightarrow> string list" where
  "first_seen names = rev (remdups (rev names))"

definition column_or_na :: "string \<Rightarrow> frame \<Rightarrow> cell list" where
  "column_or_na name df =
     (case get_col df name of Some vals \<Rightarrow> vals | None \<Rightarrow> replicate (nrows df) NA)"

definition concat_frames :: "frame list \<Rightarrow> frame" where
  "concat_frames dfs =
     \<lparr>nrows = sum_list (map nrows dfs),
      columns = map (\<lambda>name. (name, concat (map (column_or_na name) dfs)))
                    (first_seen (concat (map colnames dfs)))\<rparr>"

fun collect_frames ::
  "group_by_col \<Rightarrow> (group_value \<times> group_state) list \<Rightarrow> error + frame list" where
  "collect_frames gb [] = Inr []"
| "collect_frames gb ((group_value, result) # rest) =
     (if \<not> is_empty (data_in result) then
        (case attach_group_by gb group_value (data_in result) of
           Inl e \<Rightarrow> Inl e
         | Inr df \<Rightarrow>
             (case collect_frames gb rest of
                Inl e \<Rightarrow> Inl e
              | Inr data_in_list \<Rightarrow> Inr (dropna_all_columns df # data_in_list)))
      else collect_frames gb rest)"

text \<open>
  The filters half of \<open>process_all_groups\<close> from the results of the groups on;
  \<open>_build_filters_dataframe\<close> returns its argument with a fresh index.
\<close>

definition combine_filters ::
  "group_by_col \<Rightarrow> (group_value \<times> group_state) list \<Rightarrow> error + frame" where
  "combine_filters gb grouped_results =
     (case collect_frames gb grouped_results of
        Inl e \<Rightarrow> Inl e
      | Inr data_in_list \<Rightarrow>
          (let data_in_combined =
                 (if data_in_list \<noteq> [] then concat_frames data_in_list else empty_frame)
           in Inr (if \<not> is_empty data_in_combined then data_in_combined else empty_frame)))"

text \<open>
  For a table without any group, \<open>apply\<close> does not return a series of results but
  an empty table, and \<open>grouped_results.items()\<close> runs over its columns: for the first
  of them \<open>result['data_in']\<close> raises \<open>KeyError\<close>. Which columns that empty table
  has is pandas' affair: \<open>empty_apply_columns\<close> is their names.
\<close>

definition grouped_filters ::
  "numpy_cast \<Rightarrow> cfg_model \<Rightarrow> (group_value \<times> frame) list \<Rightarrow> string list \<Rightarrow> error + frame" where
  "grouped_filters cast cfg groups empty_apply_columns =
     (if groups = [] then
        (if empty_apply_columns = [] then combine_filters (group_by cfg) []
         else Inl (KeyError ''data_in''))
      else
        (case apply_groups cast cfg groups of
           Inl e \<Rightarrow> Inl e
         | Inr grouped_results \<Rightarrow> combine_filters (group_by cfg) grouped_results))"

text \<open>
  The dispatch of \<open>process_all_groups\<close>, for the filters table: no key (\<open>None\<close>,
  \<open>[]\<close> or \<open>''\<close>) is enrichment mode. The table and the groups are taken after
  \<open>_merge_external_data\<close>.
\<close>

definition no_group_by :: "group_by_col \<Rightarrow> bool" where
  "no_group_by gb = (gb = GbNone \<or> gb = GbList [] \<or> gb = GbStr [])"

definition process_all_groups_filters ::
  "numpy_cast \<Rightarrow> frame \<Rightarrow> (group_value \<times> frame) list \<Rightarrow> string list \<Rightarrow> cfg_model \<Rightarrow> error + frame" where
  "process_all_groups_filters cast df groups empty_apply_columns cfg =
     (if no_group_by (group_by cfg)
      then (case process_no_grouping cast df cfg of
              Inl e \<Rightarrow> Inl e
            | Inr (filters_df, attrs_df, st) \<Rightarrow> Inr filters_df)
      else grouped_filters cast cfg groups empty_apply_columns)"

section \<open>Predicates of the properties\<close>

text \<open>
  For the classifier. What is known of \<open>str.lower\<close> without the Unicode tables:
  on a text of ASCII characters it moves the letters A to Z to a to z and leaves
  every other character. A keyword occurs in a text ignoring case when a stretch of the
  text has the keyword's length and agrees with it letter by letter, where two ASCII
  characters agree when they are equal or one is the capital of the other.
\<close>

definition ascii :: "py_str \<Rightarrow> bool" where
  "ascii s = list_all (\<lambda>c. c < 128) s"

definition ascii_lower :: "nat \<Rightarrow> nat" where
  "ascii_lower c = (if 65 \<le> c \<and> c \<le> 90 then c + 32 else c)"

definition lowers_ascii :: "(py_str \<Rightarrow> py_str) \<Rightarrow> bool" where
  "lowers_ascii str_lower = (\<forall>s. ascii s \<longrightarrow> str_lower s = map ascii_lower s)"

definition same_letter :: "nat \<Rightarrow> nat \<Rightarrow> bool" where
  "same_letter a b =
     (a = b \<or> (65 \<le> a \<and> a \<le> 90 \<and> b = a + 32) \<or> (65 \<le> b \<and> b \<le> 90 \<and> a = b + 32))"

definition occurs_ignoring_case :: "py_str \<Rightarrow> py_str \<Rightarrow> bool" where
  "occurs_ignoring_case k t = (\<exists>pre w post. t = pre @ w @ post \<and> list_all2 same_letter w k)"





text \<open>
  For enrichment mode: the whole columns of a table that a list of argument names
  denotes, as arrays.
\<close>

definition column_arrays :: "frame \<Rightarrow> string list \<Rightarrow> arg_data list" where
  "column_arrays df args =
     map (\<lambda>arg. Array (case get_col df arg of Some vals \<Rightarrow> vals | None \<Rightarrow> [])) args"

text \<open>
  For the properties of resolution. Loading a feature \<open>g\<close> of the index writes the
  definition read from disk (\<open>disk_def\<close>) under \<open>load_key\<close>; \<open>grown_by_loads\<close>
  relates a store to a later one that differs from it by such loads only. The
  definitions resolution can consult for a name are those under the name's scoped key or
  the plain name, in the store or after a load. The dependency relation is acyclic when
  some rank decreases from every feature that is not an input column to each of its
  arguments that is not a group-by column.
\<close>

definition load_key :: "resolver_env \<Rightarrow> feature_store \<Rightarrow> string \<Rightarrow> string" where
  "load_key env st g = scoped_key (py_or (Some (env_model env)) (current_model st)) g"

definition disk_def :: "resolver_env \<Rightarrow> string \<Rightarrow> feature_def option" where
  "disk_def env g =
     (case disk_tree env (env_model env) g of
        Some fd \<Rightarrow> Some fd
      | None \<Rightarrow> disk_tree env common_folder g)"

definition grown_by_loads :: "resolver_env \<Rightarrow> feature_store \<Rightarrow> feature_store \<Rightarrow> bool" where
  "grown_by_loads env st st' =
     (current_model st' = current_model st \<and>
      (\<forall>k. features st' k = features st k \<or>
           (\<exists>g\<in>set (feat_idx env). \<not> has_feature g st \<and> k = load_key env st g \<and>
                features st' k = disk_def env g \<and> disk_def env g \<noteq> None)))"

definition consulted_defs :: "resolver_env \<Rightarrow> feature_store \<Rightarrow> string \<Rightarrow> feature_def set" where
  "consulted_defs env st n =
     {fd. \<exists>k\<in>{scoped_key (current_model st) n, n}.
            features st k = Some fd \<or>
            (\<exists>g\<in>set (feat_idx env). load_key env st g = k \<and> disk_def env g = Some fd)}"

definition well_ranked :: "resolver_env \<Rightarrow> feature_store \<Rightarrow> (string \<Rightarrow> nat) \<Rightarrow> bool" where
  "well_ranked env st rank =
     (\<forall>n fd. n \<notin> set (available_cols env) \<longrightarrow> fd \<in> consulted_defs env st n \<longrightarrow>
        (\<forall>a\<in>set (arg_list fd). a \<notin> set (group_by_list env) \<longrightarrow> rank a < rank n))"

text \<open>
  Every indexed feature can be read from disk, and a loaded definition is visible to
  \<open>get_feature\<close>: the store's current model is the model being resolved.
\<close>

definition loads_succeed :: "resolver_env \<Rightarrow> feature_store \<Rightarrow> bool" where
  "loads_succeed env st =
     ((\<forall>g\<in>set (feat_idx env). disk_def env g \<noteq> None) \<and>
      (feat_idx env = [] \<or> current_model st = Some (env_model env)))"

text \<open>
  A resolution that does not run out of stack: it returns, or it fails for the disk's
  sake.
\<close>

definition terminates_well ::
  "resolver_env \<Rightarrow> feature_store \<Rightarrow> error + resolution \<Rightarrow> bool" where
  "terminates_well env st0 r =
     ((case r of
         Inl e \<Rightarrow> e \<noteq> RecursionError \<and> \<not> loads_succeed env st0
       | Inr (st', ins, ex) \<Rightarrow> grown_by_loads env st0 st'))"

text \<open>
  For the order of \<open>exec_seq\<close>. Store keys are built by joining a model and a name
  with a colon, so what matters is which names are free of colons. A name is registered
  when the resolver takes it for a feature; it is settled when its definition can no
  longer change by loading; \<open>plan_inv\<close> is the invariant of the execution sequence:
  no repetition, and every argument of a member that is not a group-by column is an
  earlier member, an input column, or not registered. \<open>index_of\<close> is
  \<open>list.index\<close> for a member.
\<close>

definition colon_free :: "string \<Rightarrow> bool" where
  "colon_free s = (CHR '':'' \<notin> set s)"

definition registered :: "resolver_env \<Rightarrow> feature_store \<Rightarrow> string \<Rightarrow> bool" where
  "registered env st f = (has_feature f st \<or> f \<in> set (feat_idx env))"

definition settled :: "resolver_env \<Rightarrow> feature_store \<Rightarrow> string \<Rightarrow> bool" where
  "settled env st f =
     (has_feature f st \<or>
      (features st (load_key env st f) = disk_def env f \<and> disk_def env f \<noteq> None))"

definition args_colon_free :: "feature_store \<Rightarrow> bool" where
  "args_colon_free st =
     (\<forall>k fd. features st k = Some fd \<longrightarrow> (\<forall>a\<in>set (arg_list fd). colon_free a))"

definition names_ok :: "resolver_env \<Rightarrow> feature_store \<Rightarrow> bool" where
  "names_ok env st =
     (colon_free (env_model env) \<and>
      (\<forall>c. current_model st = Some c \<longrightarrow> colon_free c) \<and>
      (\<forall>g\<in>set (feat_idx env). \<forall>fd. disk_def env g = Some fd \<longrightarrow>
          (\<forall>a\<in>set (arg_list fd). colon_free a)))"

definition index_of :: "string list \<Rightarrow> string \<Rightarrow> nat" where
  "index_of xs x = length (takeWhile (\<lambda>y. y \<noteq> x) xs)"

definition plan_inv :: "resolver_env \<Rightarrow> feature_store \<Rightarrow> string list \<Rightarrow> bool" where
  "plan_inv env st ex =
     (distinct ex \<and>
      (\<forall>f\<in>set ex. f \<notin> set (available_cols env) \<and> colon_free f \<and> registered env st f
           \<and> settled env st f) \<and>
      (\<forall>i<length ex. \<forall>fd. get_feature (ex ! i) None st = Some fd \<longrightarrow>
         (\<forall>d\<in>set (arg_list fd). d \<notin> set (group_by_list env) \<longrightarrow>
            d \<in> set (take i ex) \<or> d \<in> set (available_cols env) \<or> \<not> registered env st d)))"

section \<open>Example inputs\<close>

text \<open>
  A lower-casing that moves the letters A to Z and nothing else. A conversion that keeps
  every scalar result as it is, as numpy's does when the results are of one type that
  holds them all, and refuses an array as an element.
\<close>

definition example_lower :: "py_str \<Rightarrow> py_str" where
  "example_lower s = map ascii_lower s"

definition keep_cast :: numpy_cast where
  "keep_cast first r = (case r of Scalar c \<Rightarrow> Inr c | Array xs \<Rightarrow> Inl NpValueError)"

text \<open>A row-wise body of two arguments: the product of a quantity and a price.\<close>

definition total_body :: feature_func where
  "total_body args =
     (case args of
        [Scalar (Num q), Scalar (Num p)] \<Rightarrow> Some (Scalar (Num (q * p)))
      | _ \<Rightarrow> None)"

text \<open>
  A group of two rows and the two features of the spec's case 2: a sum over the group
  and a row-wise comparison with it.
\<close>

fun cell_num :: "cell \<Rightarrow> int" where
  "cell_num (Num n) = n"
| "cell_num c = 0"

definition sum_body :: feature_func where
  "sum_body args =
     (case args of
        [Array xs] \<Rightarrow> Some (Scalar (Num (sum_list (map cell_num xs))))
      | _ \<Rightarrow> None)"

definition above_body :: feature_func where
  "above_body args =
     (case args of
        [Scalar (Num p), Scalar (Num s)] \<Rightarrow> Some (Scalar (Num (if s < 2 * p then 1 else 0)))
      | _ \<Rightarrow> None)"

definition example_cfg :: cfg_model where
  "example_cfg =
     \<lparr>exec_seq = [''price_sum'', ''above_avg''],
      feature_funcs = [''price_sum'' \<mapsto> sum_body, ''above_avg'' \<mapsto> above_body],
      feature_args = [''price_sum'' \<mapsto> [''price''], ''above_avg'' \<mapsto> [''price'', ''price_sum'']],
      feature_groupby_flg = [''price_sum'' \<mapsto> True, ''above_avg'' \<mapsto> False],
      ext_cols = [],
      group_by = GbStr ''shop''\<rparr>"

definition example_df :: frame where
  "example_df = \<lparr>nrows = 2, columns = [(''price'', [Num 10, Num 30])]\<rparr>"

definition example_mid :: group_state where
  "example_mid =
     \<lparr>data_in = example_df, agg_results = [''price_sum'' \<mapsto> Scalar (Num 40)],
      filters_calculated = [], calls = [AttributeCall ''price_sum'']\<rparr>"

definition example_out :: group_state where
  "example_out =
     \<lparr>data_in = \<lparr>nrows = 2, columns = [(''price'', [Num 10, Num 30]), (''above_avg'', [Num 0, Num 1])]\<rparr>,
      agg_results = [''price_sum'' \<mapsto> Scalar (Num 40)],
      filters_calculated = [''above_avg''],
      calls = [AttributeCall ''price_sum'', FilterCall ''above_avg'']\<rparr>"

text \<open>The same group without its \<open>price\<close> column.\<close>

definition missing_df :: frame where
  "missing_df = \<lparr>nrows = 2, columns = [(''qty'', [Num 1, Num 2])]\<rparr>"



text \<open>
  Enrichment mode: a table that already has a column named after an aggregation feature,
  and the spec's round trip (\<open>total = qty * price\<close>) with an aggregation beside it.
\<close>

definition agg_df :: frame where
  "agg_df = \<lparr>nrows = 2, columns = [(''price'', [Num 10, Num 30]), (''price_sum'', [Num 40, Num 40])]\<rparr>"

definition agg_out :: frame where
  "agg_out = \<lparr>nrows = 2, columns = [(''price'', [Num 10, Num 30]), (''price_sum'', [Num 40, Num 40]),
                                     (''above_avg'', [Num 0, Num 1])]\<rparr>"

definition sales_df :: frame where
  "sales_df = \<lparr>nrows = 2, columns = [(''qty'', [Num 2, Num 3]), (''price'', [Num 10, Num 20])]\<rparr>"

definition sales_cfg :: cfg_model where
  "sales_cfg =
     \<lparr>exec_seq = [''total'', ''qty_sum''],
      feature_funcs = [''total'' \<mapsto> total_body, ''qty_sum'' \<mapsto> sum_body],
      feature_args = [''total'' \<mapsto> [''qty'', ''price''], ''qty_sum'' \<mapsto> [''qty'']],
      feature_groupby_flg = [''total'' \<mapsto> False, ''qty_sum'' \<mapsto> True],
      ext_cols = [],
      group_by = GbNone\<rparr>"

definition sales_out :: frame where
  "sales_out = \<lparr>nrows = 2, columns = [(''qty'', [Num 2, Num 3]), (''price'', [Num 10, Num 20]),
                                       (''total'', [Num 20, Num 60])]\<rparr>"

text \<open>
  Two groups of a table keyed by \<open>shop\<close> whose \<open>note\<close> column is empty
  throughout, what \<open>process_group\<close> returns for them, and the filters table.
\<close>

definition note_groups :: "(group_value \<times> frame) list" where
  "note_groups =
     [(GScalar (Txt ''a''), \<lparr>nrows = 2, columns = [(''price'', [Num 10, Num 30]), (''note'', [NA, NA])]\<rparr>),
      (GScalar (Txt ''b''), \<lparr>nrows = 1, columns = [(''price'', [Num 5]), (''note'', [NA])]\<rparr>)]"

definition note_results :: "(group_value \<times> group_state) list" where
  "note_results =
     [(GScalar (Txt ''a''),
       \<lparr>data_in = \<lparr>nrows = 2, columns = [(''price'', [Num 10, Num 30]), (''note'', [NA, NA]),
                                         (''above_avg'', [Num 0, Num 1])]\<rparr>,
        agg_results = [''price_sum'' \<mapsto> Scalar (Num 40)],
        filters_calculated = [''above_avg''],
        calls = [AttributeCall ''price_sum'', FilterCall ''above_avg'']\<rparr>),
      (GScalar (Txt ''b''),
       \<lparr>data_in = \<lparr>nrows = 1, columns = [(''price'', [Num 5]), (''note'', [NA]),
                                         (''above_avg'', [Num 1])]\<rparr>,
        agg_results = [''price_sum'' \<mapsto> Scalar (Num 5)],
        filters_calculated = [''above_avg''],
        calls = [AttributeCall ''price_sum'', FilterCall ''above_avg'']\<rparr>)]"

definition note_table :: frame where
  "note_table =
     \<lparr>nrows = 3,
      columns = [(''price'', [Num 10, Num 30, Num 5]),
                 (''above_avg'', [Num 0, Num 1, Num 1]),
                 (''shop'', [Txt ''a'', Txt ''a'', Txt ''b''])]\<rparr>"

text \<open>
  Registries: a feature that lists itself as its argument, and the two features of the
  resolver's unit test (\<open>derived_feature\<close> needs \<open>base_feature\<close>), with no feature
  folders on disk.
\<close>

definition cyclic_store :: feature_store where
  "cyclic_store =
     \<lparr>features = [''f'' \<mapsto> PyCallable [''f''] None], current_model = None,
      feature_index = Map.empty\<rparr>"

definition chain_store :: feature_store where
  "chain_store =
     \<lparr>features = [''base_feature'' \<mapsto> PyCallable [''col1''] None,
                  ''derived_feature'' \<mapsto> PyCallable [''base_feature'', ''col2''] None],
      current_model = None, feature_index = Map.empty\<rparr>"

definition chain_rank :: "string \<Rightarrow> nat" where
  "chain_rank n = (if n = ''derived_feature'' then 2 else if n = ''base_feature'' then 1 else 0)"

definition no_listing :: "string \<Rightarrow> string list option" where
  "no_listing model = None"

definition no_disk :: disk where
  "no_disk folder feature = None"

definition chain_env :: resolver_env where
  "chain_env =
     \<lparr>available_cols = [''col1'', ''col2''], group_by_list = [], feat_idx = [],
      env_model = ''test_model'', disk_tree = no_disk\<rparr>"

definition chain_plan :: execution_plan where
  "chain_plan =
     \<lparr>plan_input_cols = [''col1'', ''col2''],
      plan_exec_seq = [''base_feature'', ''derived_feature''],
      plan_ext_dict = [], plan_ext_list = []\<rparr>"

text \<open>
  A model folder \<open>m\<close> with the features \<open>f\<close> and \<open>g\<close>, where \<open>f\<close> takes an
  argument named \<open>m:g\<close>, resolved with \<open>m\<close> as the current model.
\<close>

definition alias_def_f :: feature_def where
  "alias_def_f = PyDict ''def f(a, b): return a + b'' (Some [''m:g'', ''g''])"

definition alias_def_g :: feature_def where
  "alias_def_g = PyDict ''def g(): return 1'' (Some [])"

definition alias_disk :: disk where
  "alias_disk folder feature =
     (if folder = ''m'' \<and> feature = ''f'' then Some alias_def_f
      else if folder = ''m'' \<and> feature = ''g'' then Some alias_def_g
      else None)"

definition alias_listing :: "string \<Rightarrow> string list option" where
  "alias_listing folder = (if folder = ''m'' then Some [''f'', ''g''] else None)"

definition alias_store :: feature_store where
  "alias_store = \<lparr>features = Map.empty, current_model = Some ''m'', feature_index = Map.empty\<rparr>"

definition alias_final :: feature_store where
  "alias_final =
     \<lparr>features = [''m:f'' \<mapsto> alias_def_f, ''m:g'' \<mapsto> alias_def_g],
      current_model = Some ''m'',
      feature_index = [''m'' \<mapsto> [''f'', ''g'']]\<rparr>"

definition alias_plan :: execution_plan where
  "alias_plan =
     \<lparr>plan_input_cols = [''m:g''], plan_exec_seq = [''g'', ''f'', ''m:g''],
      plan_ext_dict = [], plan_ext_list = []\<rparr>"

section \<open>Verified properties\<close>

subsection \<open>Strings\<close>

lemma starts_with_iff: "starts_with k t \<longleftrightarrow> (\<exists>s. t = k @ s)"
  by (induction k t rule: starts_with.induct) auto

lemma str_in_iff: "str_in k t \<longleftrightarrow> (\<exists>p s. t = p @ k @ s)"
proof (induction t)
  case Nil
  then show ?case by auto
next
  case (Cons c cs)
  have "(\<exists>p s. c # cs = p @ k @ s) \<longleftrightarrow> (\<exists>s. c # cs = k @ s) \<or> (\<exists>p s. cs = p @ k @ s)"
    by (auto simp: Cons_eq_append_conv)
  then show ?case using Cons by (simp add: starts_with_iff)
qed

subsection \<open>The aggregation classifier\<close>

lemma keywords_ascii: "\<forall>k\<in>set AGGREGATION_KEYWORDS. ascii (codepoints k)"
  by (simp add: AGGREGATION_KEYWORDS_def ascii_def codepoints_def)

lemma same_letter_iff: "ascii_lower a = ascii_lower b \<longleftrightarrow> same_letter a b"
  by (auto simp: ascii_lower_def same_letter_def)

lemma map_lower_eq: "map ascii_lower w = map ascii_lower k \<longleftrightarrow> list_all2 same_letter w k"
proof (induction w arbitrary: k)
  case Nil
  then show ?case by auto
next
  case (Cons a w)
  then show ?case by (cases k) (auto simp: same_letter_iff)
qed

lemma map_split: "map f xs = ys @ zs \<Longrightarrow> \<exists>us vs. xs = us @ vs \<and> map f us = ys \<and> map f vs = zs"
  by (auto simp: map_eq_append_conv)

lemma lowered_occurrence:
  "(\<exists>pre post. map ascii_lower t = pre @ map ascii_lower k @ post) \<longleftrightarrow> occurs_ignoring_case k t"
proof
  assume "\<exists>pre post. map ascii_lower t = pre @ map ascii_lower k @ post"
  then obtain pre post where "map ascii_lower t = pre @ (map ascii_lower k @ post)" by auto
  from map_split [OF this] obtain us vs where t: "t = us @ vs"
    and v: "map ascii_lower vs = map ascii_lower k @ post" by blast
  from map_split [OF v] obtain w ps where "vs = w @ ps" and "map ascii_lower w = map ascii_lower k"
    by blast
  then show "occurs_ignoring_case k t"
    using t unfolding occurs_ignoring_case_def map_lower_eq by blast
next
  assume "occurs_ignoring_case k t"
  then obtain pre w post where "t = pre @ w @ post" and "map ascii_lower w = map ascii_lower k"
    unfolding occurs_ignoring_case_def map_lower_eq by blast
  then have "map ascii_lower t = map ascii_lower pre @ map ascii_lower k @ map ascii_lower post"
    by simp
  then show "\<exists>pre post. map ascii_lower t = pre @ map ascii_lower k @ post" by blast
qed

lemma example_lower_ascii: "lowers_ascii example_lower"
  by (simp add: lowers_ascii_def example_lower_def)

text \<open>
  C7. \<open>is_aggregation\<close> is a total boolean function, true exactly when the feature
  has a text (the source of a callable when it can be retrieved, or the string itself)
  and, for some keyword of \<open>AGGREGATION_KEYWORDS\<close>, the lower-cased keyword is a
  substring of the lower-cased text; so it is false, and nothing is raised, when no
  keyword occurs or the source of a callable cannot be retrieved. Lower-casing is
  \<open>str.lower\<close>, whatever it does beyond ASCII; since it moves A to Z to a to z and
  leaves the other ASCII characters, on a text of ASCII characters the test is that
  some keyword occurs in the text ignoring case: a stretch of the text agrees with the
  keyword letter by letter, up to capitals.
\<close>

theorem is_aggregation_iff:
  "(is_aggregation str_lower body \<longleftrightarrow>
      (\<exists>feature_text. body_text body = Some feature_text \<and>
         (\<exists>keyword \<in> set AGGREGATION_KEYWORDS. \<exists>pre post.
            str_lower feature_text = pre @ str_lower (codepoints keyword) @ post)))
   \<and> (lowers_ascii str_lower \<longrightarrow>
        (\<forall>feature_text. body_text body = Some feature_text \<and> ascii feature_text \<longrightarrow>
           (is_aggregation str_lower body \<longleftrightarrow>
              (\<exists>keyword \<in> set AGGREGATION_KEYWORDS.
                 occurs_ignoring_case (codepoints keyword) feature_text))))"
proof (intro conjI impI allI)
  show g: "is_aggregation str_lower body \<longleftrightarrow>
      (\<exists>feature_text. body_text body = Some feature_text \<and>
         (\<exists>keyword \<in> set AGGREGATION_KEYWORDS. \<exists>pre post.
            str_lower feature_text = pre @ str_lower (codepoints keyword) @ post))"
    by (auto simp: is_aggregation_def body_text_def list_ex_iff str_in_iff
             split: feature_body.splits option.splits)
  fix feature_text
  assume l: "lowers_ascii str_lower" and t: "body_text body = Some feature_text \<and> ascii feature_text"
  have lt: "str_lower feature_text = map ascii_lower feature_text"
    using l t by (simp add: lowers_ascii_def)
  have lk: "str_lower (codepoints keyword) = map ascii_lower (codepoints keyword)"
    if "keyword \<in> set AGGREGATION_KEYWORDS" for keyword
    using l keywords_ascii that by (simp add: lowers_ascii_def)
  have "is_aggregation str_lower body \<longleftrightarrow>
      (\<exists>keyword \<in> set AGGREGATION_KEYWORDS. \<exists>pre post.
            str_lower feature_text = pre @ str_lower (codepoints keyword) @ post)"
    using g t by simp
  also have "\<dots> \<longleftrightarrow> (\<exists>keyword \<in> set AGGREGATION_KEYWORDS. \<exists>pre post.
            map ascii_lower feature_text = pre @ map ascii_lower (codepoints keyword) @ post)"
    using lk by (simp add: lt)
  also have "\<dots> \<longleftrightarrow> (\<exists>keyword \<in> set AGGREGATION_KEYWORDS.
                 occurs_ignoring_case (codepoints keyword) feature_text)"
    by (simp only: lowered_occurrence)
  finally show "is_aggregation str_lower body \<longleftrightarrow>
              (\<exists>keyword \<in> set AGGREGATION_KEYWORDS.
                 occurs_ignoring_case (codepoints keyword) feature_text)" .
qed

theorem is_aggregation_iff_witness:
  "is_aggregation example_lower (CodeStr (codepoints ''total = qty.SUM()''))
   \<and> \<not> is_aggregation example_lower (CodeStr (codepoints ''qty * price''))
   \<and> \<not> is_aggregation example_lower (Callable None)"
proof -
  have k: "''.sum('' \<in> set AGGREGATION_KEYWORDS"
    by (simp add: AGGREGATION_KEYWORDS_def)
  have "codepoints ''total = qty.SUM()'' = codepoints ''total = qty'' @ codepoints ''.SUM('' @ codepoints '')''"
    by (simp add: codepoints_def)
  moreover have "list_all2 same_letter (codepoints ''.SUM('') (codepoints ''.sum('')"
    by (simp add: codepoints_def same_letter_def)
  ultimately have "occurs_ignoring_case (codepoints ''.sum('') (codepoints ''total = qty.SUM()'')"
    unfolding occurs_ignoring_case_def by blast
  then have o: "\<exists>keyword \<in> set AGGREGATION_KEYWORDS.
      occurs_ignoring_case (codepoints keyword) (codepoints ''total = qty.SUM()'')"
    using k by blast
  have a: "ascii (codepoints ''total = qty.SUM()'')"
    by (simp add: ascii_def codepoints_def)
  have b: "body_text (CodeStr (codepoints ''total = qty.SUM()'')) = Some (codepoints ''total = qty.SUM()'')"
    by (simp add: body_text_def)
  have "is_aggregation example_lower (CodeStr (codepoints ''total = qty.SUM()''))"
    using is_aggregation_iff [of example_lower "CodeStr (codepoints ''total = qty.SUM()'')"]
      example_lower_ascii o a b
    by blast
  moreover have "\<not> is_aggregation example_lower (Callable None)"
    using is_aggregation_iff [of example_lower "Callable None"]
    by (simp add: body_text_def)
  moreover have "\<not> is_aggregation example_lower (CodeStr (codepoints ''qty * price''))"
    by (simp add: is_aggregation_def example_lower_def AGGREGATION_KEYWORDS_def codepoints_def
          ascii_lower_def)
  ultimately show ?thesis by simp
qed

subsection \<open>The feature registry\<close>

text \<open>
  C4. The lookup does not fall back to the common scope, which the property, the notes
  of \<open>store_features\<close> (common features are shared across all models, and
  model-specific features override them) and the fallback of \<open>load_from_filesystem\<close>
  to the common folder all expect: a definition stored under the \<open>common\<close> scope
  (the key \<open>common:x\<close>, where \<open>load_common_features\<close> puts it) is not found by
  a lookup of \<open>x\<close> for another model.
\<close>

theorem get_feature_common_counterexample:
  "features (store_feature ''x'' (PyCallable [''qty''] None) (Some ''common'') new_store) ''common:x''
     = Some (PyCallable [''qty''] None)
   \<and> get_feature ''x'' (Some ''m'')
        (store_feature ''x'' (PyCallable [''qty''] None) (Some ''common'') new_store) = None"
  by (simp add: store_feature_def get_feature_def new_store_def py_or_def scoped_key_def)

text \<open>
  What the lookup does instead. With \<open>m\<close> the given model, or the store's current
  model when none is given: \<open>store_feature\<close> files a definition under the scoped key
  \<open>m:name\<close>, or under the plain \<open>name\<close> when there is no model;
  \<open>get_feature\<close> returns the definition under \<open>m:name\<close> when there is one, and
  otherwise the definition under the plain \<open>name\<close>.
\<close>

lemma get_feature_scoped_then_plain:
  "features (store_feature name fd model st) (scoped_key (py_or model (current_model st)) name) = Some fd
   \<and> get_feature name model st =
       (case py_or model (current_model st) of
          None \<Rightarrow> features st name
        | Some m \<Rightarrow>
            if m = [] then features st name
            else (case features st (m @ '':'' @ name) of
                    Some fd' \<Rightarrow> Some fd'
                  | None \<Rightarrow> features st name))"
  by (auto simp: store_feature_def get_feature_def scoped_key_def Let_def
           split: option.splits)

lemma get_feature_scoped_then_plain_example:
  "get_feature ''x'' (Some ''m'')
     (store_feature ''x'' (PyDict ''code'' None) None
        (store_feature ''x'' (PyCallable [''qty''] None) (Some ''m'') new_store))
     = Some (PyCallable [''qty''] None)
   \<and> get_feature ''x'' (Some ''other'')
     (store_feature ''x'' (PyDict ''code'' None) None
        (store_feature ''x'' (PyCallable [''qty''] None) (Some ''m'') new_store))
     = Some (PyDict ''code'' None)"
  using get_feature_scoped_then_plain [of "''x''" "PyDict ''code'' None" "Some ''m''"
      "store_feature ''x'' (PyDict ''code'' None) None
        (store_feature ''x'' (PyCallable [''qty''] None) (Some ''m'') new_store)"]
    get_feature_scoped_then_plain [of "''x''" "PyDict ''code'' None" "Some ''other''"
      "store_feature ''x'' (PyDict ''code'' None) None
        (store_feature ''x'' (PyCallable [''qty''] None) (Some ''m'') new_store)"]
  by (simp add: store_feature_def new_store_def py_or_def scoped_key_def)

subsection \<open>The calculator\<close>








subsection \<open>The group loop: routing\<close>

lemma get_col_None: "get_col df name = None \<longleftrightarrow> name \<notin> set (colnames df)"
  by (simp add: get_col_def colnames_def map_of_eq_None_iff)

lemma prepare_args_flags:
  "prepare_args ext st feature args (ad, i, out) = Inr (ad', i', out') \<Longrightarrow>
     i' = (i \<or> (\<exists>a\<in>set args. agg_results st a = None \<and> a \<notin> set ext))
     \<and> out' = (out \<or> (\<exists>a\<in>set args. agg_results st a \<noteq> None \<or> a \<in> set ext))
     \<and> length ad' = length ad + length args"
proof (induction args arbitrary: ad i out)
  case Nil
  then show ?case by simp
next
  case (Cons a args)
  then show ?case
    by (fastforce split: option.splits if_splits list.splits)
qed

lemma put_col_fresh: "name \<notin> set (map fst cols) \<Longrightarrow> put_col name vals cols = cols @ [(name, vals)]"
  by (simp add: put_col_def)

text \<open>
  C1. A feature that is executed (not already a column, its metadata present, its
  arguments fetched): \<open>in_flg\<close> says that some argument came from the row table,
  \<open>out_flg\<close> that some argument came from the scalar map or an external column, and
  the step is a FILTER exactly when \<open>in_flg\<close> holds and \<open>groupby_flg\<close> does not:
  \<open>calculate_filter\<close> is called and its result appended to the row table as a new
  column named after the feature. In every other case the step is an ATTRIBUTE:
  \<open>calculate_attribute\<close> is called and its result stored in the scalar map under the
  feature's name. \<open>out_flg\<close> has no part in the choice.
\<close>

theorem four_case_routing:
  assumes fresh: "feature \<notin> set (colnames (data_in st))"
    and meta: "feature_meta cfg feature = Inr (func, args, groupby_flg)"
    and prep: "prepare_args (ext_cols cfg) st feature args ([], False, False)
                 = Inr (args_data, in_flg, out_flg)"
  shows "in_flg = (\<exists>a\<in>set args. agg_results st a = None \<and> a \<notin> set (ext_cols cfg))
    \<and> out_flg = (\<exists>a\<in>set args. agg_results st a \<noteq> None \<or> a \<in> set (ext_cols cfg))
    \<and> group_step cast cfg st feature =
        (if in_flg \<and> \<not> groupby_flg then
           (case calculate_filter cast feature func args_data of
              Inl e \<Rightarrow> Inl e
            | Inr col \<Rightarrow>
                if length col = nrows (data_in st)
                then Inr (st\<lparr>data_in := (data_in st)\<lparr>columns := columns (data_in st) @ [(feature, col)]\<rparr>,
                            filters_calculated := filters_calculated st @ [feature],
                            calls := calls st @ [FilterCall feature]\<rparr>)
                else Inl ValueError)
         else
           (case calculate_attribute feature func args_data of
              Inl e \<Rightarrow> Inl e
            | Inr v \<Rightarrow>
                Inr (st\<lparr>agg_results := (agg_results st)(feature \<mapsto> v),
                        calls := calls st @ [AttributeCall feature]\<rparr>)))"
proof -
  have flags: "in_flg = (\<exists>a\<in>set args. agg_results st a = None \<and> a \<notin> set (ext_cols cfg))"
    "out_flg = (\<exists>a\<in>set args. agg_results st a \<noteq> None \<or> a \<in> set (ext_cols cfg))"
    using prepare_args_flags [OF prep] by simp_all
  have fresh': "feature \<notin> set (map fst (columns (data_in st)))"
    using fresh by (simp add: colnames_def)
  have step: "group_step cast cfg st feature =
        (if in_flg \<and> \<not> groupby_flg then
           (case calculate_filter cast feature func args_data of
              Inl e \<Rightarrow> Inl e
            | Inr col \<Rightarrow>
                if length col = nrows (data_in st)
                then Inr (st\<lparr>data_in := (data_in st)\<lparr>columns := columns (data_in st) @ [(feature, col)]\<rparr>,
                            filters_calculated := filters_calculated st @ [feature],
                            calls := calls st @ [FilterCall feature]\<rparr>)
                else Inl ValueError)
         else
           (case calculate_attribute feature func args_data of
              Inl e \<Rightarrow> Inl e
            | Inr v \<Rightarrow>
                Inr (st\<lparr>agg_results := (agg_results st)(feature \<mapsto> v),
                        calls := calls st @ [AttributeCall feature]\<rparr>)))"
    using fresh meta prep
    by (simp add: group_step_def set_column_def put_col_fresh [OF fresh'] split: sum.splits)
  show ?thesis using flags step by blast
qed


lemma example_meta:
  "feature_meta example_cfg ''price_sum'' = Inr (sum_body, [''price''], True)"
  "feature_meta example_cfg ''above_avg'' = Inr (above_body, [''price'', ''price_sum''], False)"
  by (simp_all add: feature_meta_def example_cfg_def)

lemma example_prep:
  "prepare_args (ext_cols example_cfg) (init_group example_df) ''price_sum'' [''price''] ([], False, False)
     = Inr ([Array [Num 10, Num 30]], True, False)"
  "prepare_args (ext_cols example_cfg) example_mid ''above_avg'' [''price'', ''price_sum''] ([], False, False)
     = Inr ([Array [Num 10, Num 30], Scalar (Num 40)], True, True)"
  by (simp_all add: example_cfg_def init_group_def example_df_def example_mid_def get_col_def)

lemma example_filter:
  "calculate_filter keep_cast ''above_avg'' above_body [Array [Num 10, Num 30], Scalar (Num 40)] = Inr [Num 0, Num 1]"
  by (simp add: calculate_filter_def np_vectorize_def row_args_def call_body_def above_body_def
        keep_cast_def upt_conv_Cons)

theorem four_case_routing_witness:
  "group_step keep_cast example_cfg (init_group example_df) ''price_sum'' = Inr example_mid
   \<and> group_step keep_cast example_cfg example_mid ''above_avg'' =
       Inr (example_mid\<lparr>data_in := \<lparr>nrows = 2, columns = [(''price'', [Num 10, Num 30]), (''above_avg'', [Num 0, Num 1])]\<rparr>,
                        filters_calculated := [''above_avg''],
                        calls := [AttributeCall ''price_sum'', FilterCall ''above_avg'']\<rparr>)"
proof -
  have "group_step keep_cast example_cfg (init_group example_df) ''price_sum'' = Inr example_mid"
    using four_case_routing [OF _ example_meta(1) example_prep(1)]
    by (simp add: init_group_def example_df_def example_mid_def colnames_def calculate_attribute_def
          call_body_def sum_body_def)
  moreover have "group_step keep_cast example_cfg example_mid ''above_avg'' =
       Inr (example_mid\<lparr>data_in := \<lparr>nrows = 2, columns = [(''price'', [Num 10, Num 30]), (''above_avg'', [Num 0, Num 1])]\<rparr>,
                        filters_calculated := [''above_avg''],
                        calls := [AttributeCall ''price_sum'', FilterCall ''above_avg'']\<rparr>)"
    using four_case_routing [OF _ example_meta(2) example_prep(2)]
    by (simp add: example_df_def example_mid_def colnames_def example_filter)
  ultimately show ?thesis by simp
qed

subsection \<open>The group loop: columns already present\<close>

lemma group_step_skip: "feature \<in> set (colnames (data_in st)) \<Longrightarrow> group_step cast cfg st feature = Inr st"
  by (simp add: group_step_def)

lemma group_step_cases:
  assumes "group_step cast cfg st feature = Inr st'" and "feature \<notin> set (colnames (data_in st))"
  shows "(\<exists>col. st' = st\<lparr>data_in := (data_in st)\<lparr>columns := columns (data_in st) @ [(feature, col)]\<rparr>,
                         filters_calculated := filters_calculated st @ [feature],
                         calls := calls st @ [FilterCall feature]\<rparr>)
       \<or> (\<exists>v. st' = st\<lparr>agg_results := (agg_results st)(feature \<mapsto> v),
                         calls := calls st @ [AttributeCall feature]\<rparr>)"
proof -
  have fresh: "feature \<notin> set (map fst (columns (data_in st)))"
    using assms(2) by (simp add: colnames_def)
  obtain func args groupby_flg where meta: "feature_meta cfg feature = Inr (func, args, groupby_flg)"
    using assms by (auto simp: group_step_def split: sum.splits)
  obtain args_data in_flg out_flg where
    prep: "prepare_args (ext_cols cfg) st feature args ([], False, False) = Inr (args_data, in_flg, out_flg)"
    using assms meta by (auto simp: group_step_def split: sum.splits)
  show ?thesis
  proof (cases "in_flg \<and> \<not> groupby_flg")
    case True
    then obtain col where "calculate_filter cast feature func args_data = Inr col"
      and "set_column feature col (data_in st) =
             Inr ((data_in st)\<lparr>columns := columns (data_in st) @ [(feature, col)]\<rparr>)"
      and "st' = st\<lparr>data_in := (data_in st)\<lparr>columns := columns (data_in st) @ [(feature, col)]\<rparr>,
                         filters_calculated := filters_calculated st @ [feature],
                         calls := calls st @ [FilterCall feature]\<rparr>"
      using assms meta prep fresh
      by (auto simp: group_step_def set_column_def put_col_def split: sum.splits if_splits)
    then show ?thesis by blast
  next
    case False
    then obtain v where "st' = st\<lparr>agg_results := (agg_results st)(feature \<mapsto> v),
                         calls := calls st @ [AttributeCall feature]\<rparr>"
      using assms meta prep
      by (auto simp: group_step_def split: sum.splits if_splits)
    then show ?thesis by blast
  qed
qed

lemma group_step_frame:
  assumes step: "group_step cast cfg st feature = Inr st'" and c: "c \<in> set (colnames (data_in st))"
  shows "get_col (data_in st') c = get_col (data_in st) c
    \<and> c \<in> set (colnames (data_in st'))
    \<and> agg_results st' c = agg_results st c
    \<and> filter (\<lambda>k. k = FilterCall c \<or> k = AttributeCall c) (calls st')
        = filter (\<lambda>k. k = FilterCall c \<or> k = AttributeCall c) (calls st)"
proof (cases "feature \<in> set (colnames (data_in st))")
  case True
  then show ?thesis using assms by (simp add: group_step_def)
next
  case False
  then have ne: "c \<noteq> feature" using c by auto
  have c': "c \<in> fst ` set (columns (data_in st))" using c by (simp add: colnames_def)
  from group_step_cases [OF step False] show ?thesis
  proof
    assume "\<exists>col. st' = st\<lparr>data_in := (data_in st)\<lparr>columns := columns (data_in st) @ [(feature, col)]\<rparr>,
                         filters_calculated := filters_calculated st @ [feature],
                         calls := calls st @ [FilterCall feature]\<rparr>"
    then obtain col where "st' = st\<lparr>data_in := (data_in st)\<lparr>columns := columns (data_in st) @ [(feature, col)]\<rparr>,
                         filters_calculated := filters_calculated st @ [feature],
                         calls := calls st @ [FilterCall feature]\<rparr>" by blast
    then show ?thesis using ne c c'
      by (simp add: get_col_def colnames_def map_add_dom_app_simps dom_map_of_conv_image_fst)
  next
    assume "\<exists>v. st' = st\<lparr>agg_results := (agg_results st)(feature \<mapsto> v),
                         calls := calls st @ [AttributeCall feature]\<rparr>"
    then obtain v where "st' = st\<lparr>agg_results := (agg_results st)(feature \<mapsto> v),
                         calls := calls st @ [AttributeCall feature]\<rparr>" by blast
    then show ?thesis using ne c by simp
  qed
qed

lemma group_loop_frame:
  "group_loop cast cfg st rest = Inr st' \<Longrightarrow> c \<in> set (colnames (data_in st)) \<Longrightarrow>
     get_col (data_in st') c = get_col (data_in st) c
     \<and> c \<in> set (colnames (data_in st'))
     \<and> agg_results st' c = agg_results st c
     \<and> filter (\<lambda>k. k = FilterCall c \<or> k = AttributeCall c) (calls st')
         = filter (\<lambda>k. k = FilterCall c \<or> k = AttributeCall c) (calls st)"
proof (induction rest arbitrary: st)
  case Nil
  then show ?case by simp
next
  case (Cons feature rest)
  from Cons.prems(1) obtain st1 where s1: "group_step cast cfg st feature = Inr st1"
    and l1: "group_loop cast cfg st1 rest = Inr st'"
    by (auto split: sum.splits)
  have f1: "get_col (data_in st1) c = get_col (data_in st) c
    \<and> c \<in> set (colnames (data_in st1))
    \<and> agg_results st1 c = agg_results st c
    \<and> filter (\<lambda>k. k = FilterCall c \<or> k = AttributeCall c) (calls st1)
        = filter (\<lambda>k. k = FilterCall c \<or> k = AttributeCall c) (calls st)"
    by (rule group_step_frame [OF s1 Cons.prems(2)])
  then have c1: "c \<in> set (colnames (data_in st1))" by simp
  from Cons.IH [OF l1 c1] f1 show ?case by simp
qed

lemma example_step1: "group_step keep_cast example_cfg (init_group example_df) ''price_sum'' = Inr example_mid"
proof -
  have nc: "''price_sum'' \<notin> set (colnames (data_in (init_group example_df)))"
    by (simp add: init_group_def example_df_def colnames_def)
  have "group_step keep_cast example_cfg (init_group example_df) ''price_sum'' =
          Inr ((init_group example_df)\<lparr>agg_results := (agg_results (init_group example_df))(''price_sum'' \<mapsto> Scalar (Num 40)),
                calls := calls (init_group example_df) @ [AttributeCall ''price_sum'']\<rparr>)"
    using nc by (simp add: group_step_def example_meta example_prep calculate_attribute_def
          call_body_def sum_body_def del: prepare_args.simps)
  then show ?thesis by (simp add: init_group_def example_mid_def)
qed

lemma example_step2: "group_step keep_cast example_cfg example_mid ''above_avg'' = Inr example_out"
proof -
  have nc: "''above_avg'' \<notin> set (colnames (data_in example_mid))"
    by (simp add: example_mid_def example_df_def colnames_def)
  have "group_step keep_cast example_cfg example_mid ''above_avg'' =
          (case set_column ''above_avg'' [Num 0, Num 1] (data_in example_mid) of
             Inl e \<Rightarrow> Inl e
           | Inr df \<Rightarrow> Inr (example_mid\<lparr>data_in := df,
                 filters_calculated := filters_calculated example_mid @ [''above_avg''],
                 calls := calls example_mid @ [FilterCall ''above_avg'']\<rparr>))"
    using nc by (simp add: group_step_def example_meta example_prep example_filter
          del: prepare_args.simps)
  then show ?thesis
    by (simp add: example_mid_def example_df_def example_out_def set_column_def put_col_def)
qed

lemma example_run:
  "group_loop keep_cast example_cfg (init_group example_df) [''price'', ''price_sum'', ''above_avg''] = Inr example_out"
proof -
  have "group_step keep_cast example_cfg (init_group example_df) ''price'' = Inr (init_group example_df)"
    by (simp add: group_step_def init_group_def example_df_def colnames_def)
  then show ?thesis by (simp add: example_step1 example_step2)
qed

text \<open>
  C8. A feature that is already a column of the group's row table when the loop reaches
  it is skipped: the step leaves the whole state as it is, so the body is not invoked.
  However the loop goes on from there, the column keeps its values in the table the
  group returns, no call to the calculator is made for it, and nothing is stored under
  its name in the scalar map.
\<close>

theorem skip_existing_column:
  assumes "c \<in> set (colnames (data_in st))"
  shows "group_step cast cfg st c = Inr st
    \<and> (\<forall>rest st'. group_loop cast cfg st rest = Inr st' \<longrightarrow>
          get_col (data_in st') c = get_col (data_in st) c
          \<and> filter (\<lambda>k. k = FilterCall c \<or> k = AttributeCall c) (calls st')
              = filter (\<lambda>k. k = FilterCall c \<or> k = AttributeCall c) (calls st)
          \<and> agg_results st' c = agg_results st c)"
proof (intro conjI allI impI)
  show "group_step cast cfg st c = Inr st" using assms by (rule group_step_skip)
next
  fix rest st' assume l: "group_loop cast cfg st rest = Inr st'"
  from group_loop_frame [OF l assms]
  show "get_col (data_in st') c = get_col (data_in st) c"
    and "filter (\<lambda>k. k = FilterCall c \<or> k = AttributeCall c) (calls st')
              = filter (\<lambda>k. k = FilterCall c \<or> k = AttributeCall c) (calls st)"
    and "agg_results st' c = agg_results st c"
    by simp_all
qed

theorem skip_existing_column_witness:
  "group_step keep_cast example_cfg (init_group example_df) ''price'' = Inr (init_group example_df)
   \<and> get_col (data_in example_out) ''price'' = Some [Num 10, Num 30]
   \<and> filter (\<lambda>k. k = FilterCall ''price'' \<or> k = AttributeCall ''price'') (calls example_out) = []"
proof -
  have c: "''price'' \<in> set (colnames (data_in (init_group example_df)))"
    by (simp add: init_group_def example_df_def colnames_def)
  note w = skip_existing_column [OF c, of keep_cast example_cfg]
  from w have s: "group_step keep_cast example_cfg (init_group example_df) ''price'' = Inr (init_group example_df)"
    by blast
  from w example_run have
    "get_col (data_in example_out) ''price'' = get_col (data_in (init_group example_df)) ''price''
     \<and> filter (\<lambda>k. k = FilterCall ''price'' \<or> k = AttributeCall ''price'') (calls example_out)
        = filter (\<lambda>k. k = FilterCall ''price'' \<or> k = AttributeCall ''price'') (calls (init_group example_df))"
    by blast
  then show ?thesis using s by (simp add: init_group_def example_df_def get_col_def)
qed

subsection \<open>The group loop: unresolved arguments\<close>















lemma missing_run:
  "process_group keep_cast missing_df example_cfg = Inl (ArgNotFound ''price'' ''price_sum'')"
  by (simp add: process_group_def example_cfg_def group_step_def feature_meta_def
        init_group_def missing_df_def colnames_def get_col_def)


subsection \<open>Enrichment mode\<close>

lemma feature_meta_flag:
  "feature_meta cfg f = Inr (func, args, g) \<Longrightarrow> feature_groupby_flg cfg f = Some g"
  by (auto simp: feature_meta_def split: option.splits)

lemma enrich_args_arrays:
  "enrich_args df f args acc = Inr args_data \<Longrightarrow>
     args_data = acc @ column_arrays df args \<and> set args \<subseteq> set (colnames df)"
proof (induction args arbitrary: acc)
  case Nil
  then show ?case by (simp add: column_arrays_def)
next
  case (Cons a args)
  then obtain vals where v: "get_col df a = Some vals"
    and r: "enrich_args df f args (acc @ [Array vals]) = Inr args_data"
    by (auto split: option.splits)
  have "a \<in> set (colnames df)" using v get_col_None [of df a] by auto
  then show ?case using Cons.IH [OF r] v by (simp add: column_arrays_def)
qed

lemma get_col_append:
  "c \<in> set (colnames df) \<Longrightarrow> get_col (df\<lparr>columns := columns df @ [(f, col)]\<rparr>) c = get_col df c"
  by (auto simp: get_col_def colnames_def map_add_dom_app_simps dom_map_of_conv_image_fst)

lemma get_col_new:
  "f \<notin> set (colnames df) \<Longrightarrow> get_col (df\<lparr>columns := columns df @ [(f, col)]\<rparr>) f = Some col"
  by (auto simp: get_col_def colnames_def map_add_Some_iff map_of_eq_None_iff)

lemma column_arrays_cong:
  "\<forall>a\<in>set args. get_col df' a = get_col df a \<Longrightarrow> column_arrays df' args = column_arrays df args"
  by (simp add: column_arrays_def)

lemma enrich_step_cases:
  assumes "enrich_step cast cfg st f = Inr st'"
  shows "(f \<in> set (colnames (data_enriched st)) \<and> st' = st)
    \<or> (f \<notin> set (colnames (data_enriched st)) \<and> feature_groupby_flg cfg f = Some True
        \<and> st' = st\<lparr>skip_warnings := skip_warnings st @ [f]\<rparr>)
    \<or> (f \<notin> set (colnames (data_enriched st)) \<and> feature_groupby_flg cfg f = Some False
        \<and> (\<exists>func args col.
              feature_funcs cfg f = Some func \<and> feature_args cfg f = Some args
              \<and> set args \<subseteq> set (colnames (data_enriched st))
              \<and> calculate_filter cast f func (column_arrays (data_enriched st) args) = Inr col
              \<and> length col = nrows (data_enriched st)
              \<and> st' = st\<lparr>data_enriched := (data_enriched st)\<lparr>columns := columns (data_enriched st) @ [(f, col)]\<rparr>,
                            filters_added := filters_added st @ [f],
                            filter_calls := filter_calls st @ [FilterCall f]\<rparr>))"
proof (cases "f \<in> set (colnames (data_enriched st))")
  case True
  then show ?thesis using assms by (simp add: enrich_step_def)
next
  case False
  then have fresh: "f \<notin> set (map fst (columns (data_enriched st)))" by (simp add: colnames_def)
  obtain func args g where meta: "feature_meta cfg f = Inr (func, args, g)"
    using assms False by (auto simp: enrich_step_def split: sum.splits)
  note flag = feature_meta_flag [OF meta]
  have fa: "feature_funcs cfg f = Some func" "feature_args cfg f = Some args"
    using meta by (auto simp: feature_meta_def split: option.splits)
  show ?thesis
  proof (cases g)
    case True
    then show ?thesis using assms False meta flag by (simp add: enrich_step_def)
  next
    case g: False
    obtain args_data where ad: "enrich_args (data_enriched st) f args [] = Inr args_data"
      using assms False meta g by (auto simp: enrich_step_def split: sum.splits)
    from enrich_args_arrays [OF ad]
    have ad': "args_data = column_arrays (data_enriched st) args"
      and sub: "set args \<subseteq> set (colnames (data_enriched st))" by simp_all
    obtain col where cf: "calculate_filter cast f func args_data = Inr col"
      using assms False meta g ad by (auto simp: enrich_step_def split: sum.splits)
    have "length col = nrows (data_enriched st)
      \<and> st' = st\<lparr>data_enriched := (data_enriched st)\<lparr>columns := columns (data_enriched st) @ [(f, col)]\<rparr>,
                            filters_added := filters_added st @ [f],
                            filter_calls := filter_calls st @ [FilterCall f]\<rparr>"
      using assms False meta g ad cf fresh
      by (auto simp: enrich_step_def set_column_def put_col_def split: if_splits)
    then have "\<exists>func args col.
              feature_funcs cfg f = Some func \<and> feature_args cfg f = Some args
              \<and> set args \<subseteq> set (colnames (data_enriched st))
              \<and> calculate_filter cast f func (column_arrays (data_enriched st) args) = Inr col
              \<and> length col = nrows (data_enriched st)
              \<and> st' = st\<lparr>data_enriched := (data_enriched st)\<lparr>columns := columns (data_enriched st) @ [(f, col)]\<rparr>,
                            filters_added := filters_added st @ [f],
                            filter_calls := filter_calls st @ [FilterCall f]\<rparr>"
      using fa sub cf ad' by blast
    moreover have "feature_groupby_flg cfg f = Some False" using flag g by simp
    ultimately show ?thesis using False by blast
  qed
qed

text \<open>
  What a run of the loop from \<open>st\<close> to \<open>st'\<close> does: it appends the columns
  \<open>new\<close> and the warnings \<open>ws\<close>, none of them a column at the start, and keeps the
  rows and the cells of the columns it started with.
\<close>

lemma enrich_loop_inv:
  "enrich_loop cast cfg st fs = Inr st' \<Longrightarrow>
     \<exists>new ws. colnames (data_enriched st') = colnames (data_enriched st) @ new
       \<and> filters_added st' = filters_added st @ new
       \<and> filter_calls st' = filter_calls st @ map FilterCall new
       \<and> skip_warnings st' = skip_warnings st @ ws
       \<and> nrows (data_enriched st') = nrows (data_enriched st)
       \<and> (\<forall>c\<in>set (colnames (data_enriched st)). get_col (data_enriched st') c = get_col (data_enriched st) c)
       \<and> (\<forall>f\<in>set new. f \<notin> set (colnames (data_enriched st)))
       \<and> (\<forall>f\<in>set ws. f \<notin> set (colnames (data_enriched st)))
       \<and> (\<forall>f\<in>set new. feature_groupby_flg cfg f = Some False)
       \<and> (\<forall>f\<in>set new. \<exists>func args col.
              feature_funcs cfg f = Some func \<and> feature_args cfg f = Some args
              \<and> set args \<subseteq> set (colnames (data_enriched st'))
              \<and> calculate_filter cast f func (column_arrays (data_enriched st') args) = Inr col
              \<and> get_col (data_enriched st') f = Some col
              \<and> length col = nrows (data_enriched st'))
       \<and> (\<forall>f\<in>set fs. f \<in> set (colnames (data_enriched st))
             \<or> (feature_groupby_flg cfg f = Some True \<and> f \<in> set ws)
             \<or> (feature_groupby_flg cfg f = Some False \<and> f \<in> set new))"
proof (induction fs arbitrary: st)
  case Nil
  then show ?case by simp
next
  case (Cons g fs)
  from Cons.prems obtain st1 where s1: "enrich_step cast cfg st g = Inr st1"
    and l1: "enrich_loop cast cfg st1 fs = Inr st'"
    by (auto split: sum.splits)
  from Cons.IH [OF l1] obtain new ws where
    c: "colnames (data_enriched st') = colnames (data_enriched st1) @ new"
    and fa: "filters_added st' = filters_added st1 @ new"
    and fc: "filter_calls st' = filter_calls st1 @ map FilterCall new"
    and sw: "skip_warnings st' = skip_warnings st1 @ ws"
    and nr: "nrows (data_enriched st') = nrows (data_enriched st1)"
    and keep: "\<forall>c\<in>set (colnames (data_enriched st1)). get_col (data_enriched st') c = get_col (data_enriched st1) c"
    and fresh: "\<forall>f\<in>set new. f \<notin> set (colnames (data_enriched st1))"
    and wfresh: "\<forall>f\<in>set ws. f \<notin> set (colnames (data_enriched st1))"
    and nf: "\<forall>f\<in>set new. feature_groupby_flg cfg f = Some False"
    and calc: "\<forall>f\<in>set new. \<exists>func args col.
              feature_funcs cfg f = Some func \<and> feature_args cfg f = Some args
              \<and> set args \<subseteq> set (colnames (data_enriched st'))
              \<and> calculate_filter cast f func (column_arrays (data_enriched st') args) = Inr col
              \<and> get_col (data_enriched st') f = Some col
              \<and> length col = nrows (data_enriched st')"
    and all: "\<forall>f\<in>set fs. f \<in> set (colnames (data_enriched st1))
             \<or> (feature_groupby_flg cfg f = Some True \<and> f \<in> set ws)
             \<or> (feature_groupby_flg cfg f = Some False \<and> f \<in> set new)"
    by blast
  from enrich_step_cases [OF s1] consider
    (skip) "g \<in> set (colnames (data_enriched st))" "st1 = st"
    | (warn) "g \<notin> set (colnames (data_enriched st))" "feature_groupby_flg cfg g = Some True"
        "st1 = st\<lparr>skip_warnings := skip_warnings st @ [g]\<rparr>"
    | (filt) func args col where "g \<notin> set (colnames (data_enriched st))"
        "feature_groupby_flg cfg g = Some False"
        "feature_funcs cfg g = Some func" "feature_args cfg g = Some args"
        "set args \<subseteq> set (colnames (data_enriched st))"
        "calculate_filter cast g func (column_arrays (data_enriched st) args) = Inr col"
        "length col = nrows (data_enriched st)"
        "st1 = st\<lparr>data_enriched := (data_enriched st)\<lparr>columns := columns (data_enriched st) @ [(g, col)]\<rparr>,
                            filters_added := filters_added st @ [g],
                            filter_calls := filter_calls st @ [FilterCall g]\<rparr>"
    by blast
  then show ?case
  proof cases
    case skip
    show ?thesis
      apply (rule exI [of _ new], rule exI [of _ ws])
      using c fa fc sw nr keep fresh wfresh nf calc all skip by auto
  next
    case warn
    show ?thesis
      apply (rule exI [of _ new], rule exI [of _ "g # ws"])
      using c fa fc sw nr keep fresh wfresh nf calc all warn by auto
  next
    case filt
    let ?T = "data_enriched st"
    have d1: "data_enriched st1 = ?T\<lparr>columns := columns ?T @ [(g, col)]\<rparr>" using filt(8) by simp
    have c1: "colnames (data_enriched st1) = colnames ?T @ [g]" using d1 by (simp add: colnames_def)
    have k1: "get_col (data_enriched st1) c = get_col ?T c" if "c \<in> set (colnames ?T)" for c
      unfolding d1 using that by (rule get_col_append)
    have g1: "get_col (data_enriched st1) g = Some col"
      unfolding d1 using filt(1) by (rule get_col_new)
    have k: "get_col (data_enriched st') c = get_col ?T c" if "c \<in> set (colnames ?T)" for c
      using keep k1 [OF that] that c1 by simp
    have gk: "get_col (data_enriched st') g = Some col" using keep g1 c1 by simp
    have n: "nrows (data_enriched st') = nrows ?T" using nr d1 by simp
    have "column_arrays (data_enriched st') args = column_arrays ?T args"
      using k filt(5) by (intro column_arrays_cong) auto
    then have gcalc: "feature_funcs cfg g = Some func \<and> feature_args cfg g = Some args
              \<and> set args \<subseteq> set (colnames (data_enriched st'))
              \<and> calculate_filter cast g func (column_arrays (data_enriched st') args) = Inr col
              \<and> get_col (data_enriched st') g = Some col
              \<and> length col = nrows (data_enriched st')"
      using filt(3,4,5,6,7) c c1 gk n by auto
    have calc': "\<forall>f\<in>set (g # new). \<exists>func args col.
              feature_funcs cfg f = Some func \<and> feature_args cfg f = Some args
              \<and> set args \<subseteq> set (colnames (data_enriched st'))
              \<and> calculate_filter cast f func (column_arrays (data_enriched st') args) = Inr col
              \<and> get_col (data_enriched st') f = Some col
              \<and> length col = nrows (data_enriched st')"
      using gcalc calc by auto
    have fresh': "\<forall>f\<in>set (g # new). f \<notin> set (colnames ?T)" using fresh c1 filt(1) by auto
    have wfresh': "\<forall>f\<in>set ws. f \<notin> set (colnames ?T)" using wfresh c1 by auto
    have all': "\<forall>f\<in>set (g # fs). f \<in> set (colnames ?T)
             \<or> (feature_groupby_flg cfg f = Some True \<and> f \<in> set ws)
             \<or> (feature_groupby_flg cfg f = Some False \<and> f \<in> set (g # new))"
      using all c1 filt(2) by auto
    have nf': "\<forall>f\<in>set (g # new). feature_groupby_flg cfg f = Some False" using nf filt(2) by auto
    have "colnames (data_enriched st') = colnames ?T @ (g # new)
       \<and> filters_added st' = filters_added st @ (g # new)
       \<and> filter_calls st' = filter_calls st @ map FilterCall (g # new)
       \<and> skip_warnings st' = skip_warnings st @ ws"
      using c c1 fa fc sw filt(8) by simp
    then show ?thesis
      using n k fresh' wfresh' nf' calc' all' by blast
  qed
qed

lemma agg_filter:
  "calculate_filter keep_cast ''above_avg'' above_body [Array [Num 10, Num 30], Array [Num 40, Num 40]] = Inr [Num 0, Num 1]"
  by (simp add: calculate_filter_def np_vectorize_def row_args_def call_body_def above_body_def
        keep_cast_def upt_conv_Cons)

lemma sales_filter:
  "calculate_filter keep_cast ''total'' total_body [Array [Num 2, Num 3], Array [Num 10, Num 20]] = Inr [Num 20, Num 60]"
  by (simp add: calculate_filter_def np_vectorize_def row_args_def call_body_def total_body_def
        keep_cast_def upt_conv_Cons)

lemma agg_run:
  "process_no_grouping keep_cast agg_df example_cfg =
     Inr (agg_out, empty_frame,
          \<lparr>data_enriched = agg_out, filters_added = [''above_avg''], skip_warnings = [],
           filter_calls = [FilterCall ''above_avg'']\<rparr>)"
  by (simp add: process_no_grouping_def init_enrich_def example_cfg_def agg_df_def agg_out_def
        enrich_step_def feature_meta_def colnames_def get_col_def agg_filter set_column_def put_col_def)

lemma sales_run:
  "process_no_grouping keep_cast sales_df sales_cfg =
     Inr (sales_out, empty_frame,
          \<lparr>data_enriched = sales_out, filters_added = [''total''], skip_warnings = [''qty_sum''],
           filter_calls = [FilterCall ''total'']\<rparr>)"
  by (simp add: process_no_grouping_def init_enrich_def sales_cfg_def sales_df_def sales_out_def
        enrich_step_def feature_meta_def colnames_def get_col_def sales_filter set_column_def put_col_def)

text \<open>
  C6, as stated, fails: a feature whose aggregation flag is true and whose name is
  already a column of the input is skipped without a warning, and the column is in the
  output.
\<close>

theorem enrichment_aggregation_counterexample:
  "''price_sum'' \<in> set (exec_seq example_cfg)
   \<and> feature_groupby_flg example_cfg ''price_sum'' = Some True
   \<and> process_no_grouping keep_cast agg_df example_cfg =
       Inr (agg_out, empty_frame,
            \<lparr>data_enriched = agg_out, filters_added = [''above_avg''], skip_warnings = [],
             filter_calls = [FilterCall ''above_avg'']\<rparr>)
   \<and> ''price_sum'' \<in> set (colnames agg_out)"
  using agg_run by (simp add: example_cfg_def agg_out_def colnames_def)

text \<open>
  C6, amended. When \<open>_process_no_grouping\<close> returns, the attributes table is empty
  and the filters table has the rows of the input and the input's columns, with their
  cells, followed by the filters computed, in order, each by one call of
  \<open>calculate_filter\<close>. A feature whose name is already a column of the input is skipped
  silently whatever its flag: no warning is logged for it and no filter is computed for
  it. Every feature of \<open>exec_seq\<close> that is not a column of the input is, when its
  aggregation flag is true, skipped with a warning and not a column of the output, and,
  when its flag is false, computed as a filter over the whole dataset: its column holds
  what \<open>calculate_filter\<close> returns for its body on the whole columns of the table that
  its arguments name, one cell per row.
\<close>

theorem enrichment_mode:
  assumes "process_no_grouping cast df cfg = Inr (filters_df, attrs_df, st)"
  shows "attrs_df = empty_frame
    \<and> filters_df = data_enriched st
    \<and> nrows filters_df = nrows df
    \<and> colnames filters_df = colnames df @ filters_added st
    \<and> filter_calls st = map FilterCall (filters_added st)
    \<and> (\<forall>c\<in>set (colnames df). get_col filters_df c = get_col df c
          \<and> c \<notin> set (skip_warnings st) \<and> c \<notin> set (filters_added st))
    \<and> (\<forall>f\<in>set (exec_seq cfg). f \<notin> set (colnames df) \<longrightarrow>
          (feature_groupby_flg cfg f = Some True \<and> f \<in> set (skip_warnings st)
             \<and> f \<notin> set (colnames filters_df))
          \<or> (feature_groupby_flg cfg f = Some False \<and> f \<in> set (filters_added st)
             \<and> f \<in> set (colnames filters_df)))
    \<and> (\<forall>f\<in>set (filters_added st). \<exists>func args col.
          feature_funcs cfg f = Some func \<and> feature_args cfg f = Some args
          \<and> set args \<subseteq> set (colnames filters_df)
          \<and> calculate_filter cast f func (column_arrays filters_df args) = Inr col
          \<and> get_col filters_df f = Some col
          \<and> length col = nrows df)"
proof -
  from assms have l: "enrich_loop cast cfg (init_enrich df) (exec_seq cfg) = Inr st"
    and a: "attrs_df = empty_frame" and f: "filters_df = data_enriched st"
    by (auto simp: process_no_grouping_def split: sum.splits)
  from enrich_loop_inv [OF l] obtain new ws where
    c: "colnames (data_enriched st) = colnames df @ new"
    and fa: "filters_added st = new"
    and fc: "filter_calls st = map FilterCall new"
    and sw: "skip_warnings st = ws"
    and nr: "nrows (data_enriched st) = nrows df"
    and keep: "\<forall>c\<in>set (colnames df). get_col (data_enriched st) c = get_col df c"
    and fresh: "\<forall>f\<in>set new. f \<notin> set (colnames df)"
    and wfresh: "\<forall>f\<in>set ws. f \<notin> set (colnames df)"
    and nf: "\<forall>f\<in>set new. feature_groupby_flg cfg f = Some False"
    and calc: "\<forall>f\<in>set new. \<exists>func args col.
              feature_funcs cfg f = Some func \<and> feature_args cfg f = Some args
              \<and> set args \<subseteq> set (colnames (data_enriched st))
              \<and> calculate_filter cast f func (column_arrays (data_enriched st) args) = Inr col
              \<and> get_col (data_enriched st) f = Some col
              \<and> length col = nrows (data_enriched st)"
    and all: "\<forall>f\<in>set (exec_seq cfg). f \<in> set (colnames df)
             \<or> (feature_groupby_flg cfg f = Some True \<and> f \<in> set ws)
             \<or> (feature_groupby_flg cfg f = Some False \<and> f \<in> set new)"
    by (auto simp: init_enrich_def)
  have input: "\<forall>c\<in>set (colnames df). get_col filters_df c = get_col df c
          \<and> c \<notin> set (skip_warnings st) \<and> c \<notin> set (filters_added st)"
    using keep fresh wfresh f fa sw by auto
  have "(feature_groupby_flg cfg g = Some True \<and> g \<in> set (skip_warnings st)
             \<and> g \<notin> set (colnames filters_df))
          \<or> (feature_groupby_flg cfg g = Some False \<and> g \<in> set (filters_added st)
             \<and> g \<in> set (colnames filters_df))"
    if g: "g \<in> set (exec_seq cfg)" "g \<notin> set (colnames df)" for g
  proof -
    from all g consider "feature_groupby_flg cfg g = Some True" "g \<in> set ws"
      | "feature_groupby_flg cfg g = Some False" "g \<in> set new" by blast
    then show ?thesis
    proof cases
      case 1
      then have "g \<notin> set new" using nf by auto
      then show ?thesis using 1 g c f sw by simp
    next
      case 2
      then show ?thesis using c f fa by simp
    qed
  qed
  then have feats: "\<forall>f\<in>set (exec_seq cfg). f \<notin> set (colnames df) \<longrightarrow>
          (feature_groupby_flg cfg f = Some True \<and> f \<in> set (skip_warnings st)
             \<and> f \<notin> set (colnames filters_df))
          \<or> (feature_groupby_flg cfg f = Some False \<and> f \<in> set (filters_added st)
             \<and> f \<in> set (colnames filters_df))"
    by blast
  have cells: "\<forall>f\<in>set (filters_added st). \<exists>func args col.
          feature_funcs cfg f = Some func \<and> feature_args cfg f = Some args
          \<and> set args \<subseteq> set (colnames filters_df)
          \<and> calculate_filter cast f func (column_arrays filters_df args) = Inr col
          \<and> get_col filters_df f = Some col
          \<and> length col = nrows df"
    using calc fa f nr by simp
  have "attrs_df = empty_frame \<and> filters_df = data_enriched st \<and> nrows filters_df = nrows df
    \<and> colnames filters_df = colnames df @ filters_added st
    \<and> filter_calls st = map FilterCall (filters_added st)"
    using a f c fa fc nr by simp
  then show ?thesis using input feats cells by blast
qed

theorem enrichment_mode_witness:
  "process_no_grouping keep_cast sales_df sales_cfg =
     Inr (sales_out, empty_frame,
          \<lparr>data_enriched = sales_out, filters_added = [''total''], skip_warnings = [''qty_sum''],
           filter_calls = [FilterCall ''total'']\<rparr>)
   \<and> colnames sales_out = colnames sales_df @ [''total'']
   \<and> ''qty_sum'' \<notin> set (colnames sales_out)
   \<and> ''total'' \<in> set (colnames sales_out)
   \<and> get_col sales_out ''qty'' = get_col sales_df ''qty''
   \<and> calculate_filter keep_cast ''total'' total_body (column_arrays sales_out [''qty'', ''price''])
        = Inr [Num 20, Num 60]
   \<and> get_col sales_out ''total'' = Some [Num 20, Num 60]"
proof -
  note w = enrichment_mode [OF sales_run]
  from w have c: "colnames sales_out = colnames sales_df @ [''total'']" by simp
  have q: "''qty_sum'' \<in> set (exec_seq sales_cfg)" "''qty_sum'' \<notin> set (colnames sales_df)"
    "feature_groupby_flg sales_cfg ''qty_sum'' = Some True"
    by (simp_all add: sales_cfg_def sales_df_def colnames_def)
  have t: "''total'' \<in> set (exec_seq sales_cfg)" "''total'' \<notin> set (colnames sales_df)"
    "feature_groupby_flg sales_cfg ''total'' = Some False"
    by (simp_all add: sales_cfg_def sales_df_def colnames_def)
  have i: "''qty'' \<in> set (colnames sales_df)" by (simp add: sales_df_def colnames_def)
  from w q have "''qty_sum'' \<notin> set (colnames sales_out)" by auto
  moreover from w t have "''total'' \<in> set (colnames sales_out)" by auto
  moreover from w i have "get_col sales_out ''qty'' = get_col sales_df ''qty''" by auto
  moreover from w have "\<exists>func args col.
          feature_funcs sales_cfg ''total'' = Some func \<and> feature_args sales_cfg ''total'' = Some args
          \<and> calculate_filter keep_cast ''total'' func (column_arrays sales_out args) = Inr col
          \<and> get_col sales_out ''total'' = Some col"
    by auto
  then have "\<exists>col. calculate_filter keep_cast ''total'' total_body (column_arrays sales_out [''qty'', ''price'']) = Inr col
          \<and> get_col sales_out ''total'' = Some col"
    by (simp add: sales_cfg_def)
  then have "calculate_filter keep_cast ''total'' total_body (column_arrays sales_out [''qty'', ''price''])
        = Inr [Num 20, Num 60]
      \<and> get_col sales_out ''total'' = Some [Num 20, Num 60]"
    by (auto simp: sales_out_def get_col_def)
  ultimately show ?thesis using sales_run c by simp
qed

subsection \<open>Combining the groups\<close>

lemma nrows_set_scalar_column [simp]: "nrows (set_scalar_column name c df) = nrows df"
  by (simp add: set_scalar_column_def)

lemma nrows_attach_cols: "attach_cols cols i gv df = Inr df' \<Longrightarrow> nrows df' = nrows df"
  by (induction cols i gv df rule: attach_cols.induct) (auto split: if_splits)

lemma nrows_attach_group_by: "attach_group_by gb gv df = Inr df' \<Longrightarrow> nrows df' = nrows df"
  by (induction gb gv df rule: attach_group_by.induct)
     (auto simp: nrows_attach_cols set_column_def split: if_splits)

lemma nrows_dropna [simp]: "nrows (dropna_all_columns df) = nrows df"
  by (simp add: dropna_all_columns_def)

lemma columns_dropna:
  "set (columns (dropna_all_columns df)) = {(name, vals). (name, vals) \<in> set (columns df) \<and> \<not> all_na vals}"
  by (auto simp: dropna_all_columns_def)

lemma collect_frames_parts:
  "collect_frames gb results = Inr parts \<Longrightarrow>
     parts = map (\<lambda>(gv, r). dropna_all_columns (projr (attach_group_by gb gv (data_in r))))
                 (filter (\<lambda>(gv, r). \<not> is_empty (data_in r)) results)
     \<and> (\<forall>(gv, r)\<in>set results. \<not> is_empty (data_in r) \<longrightarrow>
           (\<exists>df. attach_group_by gb gv (data_in r) = Inr df))"
proof (induction results arbitrary: parts)
  case Nil
  then show ?case by simp
next
  case (Cons x results)
  obtain gv r where x: "x = (gv, r)" by (cases x) auto
  show ?case
  proof (cases "is_empty (data_in r)")
    case True
    then show ?thesis using Cons x by simp
  next
    case False
    then obtain df rest where a: "attach_group_by gb gv (data_in r) = Inr df"
      and c: "collect_frames gb results = Inr rest" and p: "parts = dropna_all_columns df # rest"
      using Cons.prems x by (auto split: sum.splits)
    from Cons.IH [OF c] show ?thesis using False a p x by simp
  qed
qed

lemma set_first_seen [simp]: "set (first_seen names) = set names"
  by (simp add: first_seen_def)

lemma colnames_concat_frames: "set (colnames (concat_frames dfs)) = (\<Union>df\<in>set dfs. set (colnames df))"
  by (auto simp: concat_frames_def colnames_def comp_def)

lemma parts_nonempty_rows:
  assumes "collect_frames gb results = Inr parts" and "p \<in> set parts"
  shows "nrows p \<noteq> 0"
proof -
  from collect_frames_parts [OF assms(1)] assms(2)
  obtain gv r df where "(gv, r) \<in> set results" and ne: "\<not> is_empty (data_in r)"
    and a: "attach_group_by gb gv (data_in r) = Inr df" and p: "p = dropna_all_columns df"
    by fastforce
  from nrows_attach_group_by [OF a] ne p show ?thesis by (simp add: is_empty_def)
qed

lemma note_apply: "apply_groups keep_cast example_cfg note_groups = Inr note_results"
  by (simp add: note_groups_def note_results_def process_group_def init_group_def example_cfg_def
        group_step_def feature_meta_def colnames_def get_col_def calculate_attribute_def
        calculate_filter_def np_vectorize_def row_args_def call_body_def sum_body_def above_body_def
        keep_cast_def set_column_def put_col_def upt_conv_Cons)

lemma note_combine: "combine_filters (GbStr ''shop'') note_results = Inr note_table"
  by (simp add: combine_filters_def note_results_def note_table_def is_empty_def
        set_scalar_column_def put_col_def dropna_all_columns_def all_na_def concat_frames_def
        first_seen_def colnames_def column_or_na_def get_col_def empty_frame_def numeral_2_eq_2)

text \<open>
  C10. The frames that \<open>process_all_groups\<close> concatenates are, for each group whose
  row table is not empty and in group order, the row table with the key re-attached and
  every all-NA column dropped: no column of such a frame is all NA. The columns of the
  filters table are the columns that survive in some group; a column that is all NA
  within every group is absent from it, as \<open>note\<close> is in the example, although each
  group's row table had it.
\<close>

theorem all_na_columns_dropped:
  assumes "combine_filters gb results = Inr filters_df"
  shows "\<exists>parts. collect_frames gb results = Inr parts
    \<and> parts = map (\<lambda>(gv, r). dropna_all_columns (projr (attach_group_by gb gv (data_in r))))
                  (filter (\<lambda>(gv, r). \<not> is_empty (data_in r)) results)
    \<and> (\<forall>p\<in>set parts. \<forall>(name, vals)\<in>set (columns p). \<not> all_na vals)
    \<and> set (colnames filters_df) = (\<Union>p\<in>set parts. set (colnames p))"
proof -
  from assms obtain parts where c: "collect_frames gb results = Inr parts"
    and f: "filters_df =
      (if \<not> is_empty (if parts \<noteq> [] then concat_frames parts else empty_frame)
       then (if parts \<noteq> [] then concat_frames parts else empty_frame) else empty_frame)"
    by (auto simp: combine_filters_def Let_def split: sum.splits)
  note cp = collect_frames_parts [OF c]
  have na: "\<forall>p\<in>set parts. \<forall>(name, vals)\<in>set (columns p). \<not> all_na vals"
    using cp by (auto simp: columns_dropna)
  have cols: "set (colnames filters_df) = (\<Union>p\<in>set parts. set (colnames p))"
  proof (cases "parts = []")
    case True
    then show ?thesis using f by (simp add: empty_frame_def colnames_def is_empty_def)
  next
    case False
    show ?thesis
    proof (cases "is_empty (concat_frames parts)")
      case e: True
      have "nrows (concat_frames parts) \<noteq> 0"
      proof -
        from False obtain p where p: "p \<in> set parts" by (cases parts) auto
        from parts_nonempty_rows [OF c p] have "nrows p \<noteq> 0" .
        then have "sum_list (map nrows parts) \<noteq> 0" using p by (auto simp: sum_list_eq_0_iff)
        then show ?thesis by (simp add: concat_frames_def)
      qed
      then have "columns (concat_frames parts) = []" using e by (simp add: is_empty_def)
      then have "set (colnames (concat_frames parts)) = {}" by (simp add: colnames_def)
      then have "(\<Union>p\<in>set parts. set (colnames p)) = {}" by (simp only: colnames_concat_frames)
      then show ?thesis using f False e by (simp add: empty_frame_def colnames_def)
    next
      case ne: False
      then show ?thesis using f False by (simp add: colnames_concat_frames)
    qed
  qed
  show ?thesis using c cp na cols by blast
qed

theorem all_na_columns_dropped_witness:
  "grouped_filters keep_cast example_cfg note_groups [] = Inr note_table
   \<and> map (\<lambda>(gv, r). colnames (data_in r)) note_results
        = [[''price'', ''note'', ''above_avg''], [''price'', ''note'', ''above_avg'']]
   \<and> ''note'' \<notin> set (colnames note_table)
   \<and> set (colnames note_table) = {''price'', ''above_avg'', ''shop''}"
proof -
  have "group_by example_cfg = GbStr ''shop''" by (simp add: example_cfg_def)
  moreover have "note_groups \<noteq> []" by (simp add: note_groups_def)
  ultimately have g: "grouped_filters keep_cast example_cfg note_groups [] = Inr note_table"
    by (simp add: grouped_filters_def note_apply note_combine)
  from all_na_columns_dropped [OF note_combine]
  have "set (colnames note_table) =
     (\<Union>p\<in>set (map (\<lambda>(gv, r). dropna_all_columns (projr (attach_group_by (GbStr ''shop'') gv (data_in r))))
                  (filter (\<lambda>(gv, r). \<not> is_empty (data_in r)) note_results)). set (colnames p))"
    by blast
  then have "set (colnames note_table) = {''price'', ''above_avg'', ''shop''}"
    by (simp add: note_results_def is_empty_def set_scalar_column_def put_col_def
          dropna_all_columns_def all_na_def colnames_def numeral_2_eq_2)
  then show ?thesis using g by (simp add: note_results_def colnames_def)
qed

subsection \<open>Resolution: termination\<close>

lemma load_from_filesystem_eq:
  "load_from_filesystem (disk_tree env) (env_model env) g st =
     (case disk_def env g of
        None \<Rightarrow> Inl (FileNotFoundError g)
      | Some fd \<Rightarrow> Inr (st\<lparr>features := (features st)(load_key env st g \<mapsto> fd)\<rparr>))"
  by (simp add: load_from_filesystem_def disk_def_def store_feature_def load_key_def Let_def
        split: option.splits)

lemma get_feature_None_model:
  "get_feature f None st =
     (if features st (scoped_key (current_model st) f) = None \<and> truthy (current_model st)
      then features st f else features st (scoped_key (current_model st) f))"
  by (simp add: get_feature_def py_or_def Let_def)

lemma grown_refl: "grown_by_loads env st st"
  by (simp add: grown_by_loads_def)

lemma grown_has_feature: "grown_by_loads env st st' \<Longrightarrow> has_feature f st \<Longrightarrow> has_feature f st'"
  unfolding grown_by_loads_def has_feature_def dom_def
  by (metis (mono_tags, lifting) mem_Collect_eq)

lemma grown_trans:
  assumes a: "grown_by_loads env st st1" and b: "grown_by_loads env st1 st2"
  shows "grown_by_loads env st st2"
proof -
  have cm: "current_model st1 = current_model st" "current_model st2 = current_model st"
    using a b by (simp_all add: grown_by_loads_def)
  have lk: "load_key env st1 g = load_key env st g" for g
    using cm by (simp add: load_key_def)
  have "features st2 k = features st k \<or>
           (\<exists>g\<in>set (feat_idx env). \<not> has_feature g st \<and> k = load_key env st g \<and>
                features st2 k = disk_def env g \<and> disk_def env g \<noteq> None)" for k
  proof -
    from b have "features st2 k = features st1 k \<or>
           (\<exists>g\<in>set (feat_idx env). \<not> has_feature g st1 \<and> k = load_key env st1 g \<and>
                features st2 k = disk_def env g \<and> disk_def env g \<noteq> None)"
      by (simp add: grown_by_loads_def)
    then show ?thesis
    proof
      assume e: "features st2 k = features st1 k"
      from a have "features st1 k = features st k \<or>
           (\<exists>g\<in>set (feat_idx env). \<not> has_feature g st \<and> k = load_key env st g \<and>
                features st1 k = disk_def env g \<and> disk_def env g \<noteq> None)"
        by (simp add: grown_by_loads_def)
      then show ?thesis using e by auto
    next
      assume "\<exists>g\<in>set (feat_idx env). \<not> has_feature g st1 \<and> k = load_key env st1 g \<and>
                features st2 k = disk_def env g \<and> disk_def env g \<noteq> None"
      then obtain g where g: "g \<in> set (feat_idx env)" "\<not> has_feature g st1" "k = load_key env st1 g"
        "features st2 k = disk_def env g" "disk_def env g \<noteq> None" by blast
      have "\<not> has_feature g st" using g(2) grown_has_feature [OF a] by blast
      then show ?thesis using g lk by auto
    qed
  qed
  then show ?thesis using cm by (simp add: grown_by_loads_def)
qed

lemma grown_load:
  assumes "g \<in> set (feat_idx env)" and "\<not> has_feature g st"
    and "load_from_filesystem (disk_tree env) (env_model env) g st = Inr st1"
  shows "grown_by_loads env st st1 \<and> features st1 (load_key env st g) = disk_def env g
     \<and> disk_def env g \<noteq> None"
proof -
  from assms(3) obtain fd where d: "disk_def env g = Some fd"
    and s: "st1 = st\<lparr>features := (features st)(load_key env st g \<mapsto> fd)\<rparr>"
    by (auto simp: load_from_filesystem_eq split: option.splits)
  show ?thesis using assms(1,2) d s by (auto simp: grown_by_loads_def)
qed

lemma grown_consulted:
  assumes "grown_by_loads env st0 st" and "get_feature n None st = Some fd"
  shows "fd \<in> consulted_defs env st0 n"
proof -
  have cm: "current_model st = current_model st0" using assms(1) by (simp add: grown_by_loads_def)
  from assms(2) obtain k where k: "k \<in> {scoped_key (current_model st0) n, n}"
    and f: "features st k = Some fd"
    unfolding get_feature_None_model cm by (auto split: if_splits)
  from assms(1) have "features st k = features st0 k \<or>
           (\<exists>g\<in>set (feat_idx env). \<not> has_feature g st0 \<and> k = load_key env st0 g \<and>
                features st k = disk_def env g \<and> disk_def env g \<noteq> None)"
    by (simp add: grown_by_loads_def)
  then show ?thesis using k f unfolding consulted_defs_def by auto
qed

lemma get_feature_has:
  assumes "has_feature f st" shows "get_feature f None st \<noteq> None"
  using assms unfolding get_feature_None_model has_feature_def dom_def
  by (auto simp: scoped_key_def)

lemma get_feature_loaded:
  assumes "features st1 (load_key env st f) \<noteq> None" and "current_model st1 = current_model st"
    and "current_model st = Some (env_model env)"
  shows "get_feature f None st1 \<noteq> None"
proof -
  have "load_key env st f = scoped_key (current_model st1) f"
    using assms(2,3) by (simp add: load_key_def py_or_def)
  then show ?thesis using assms(1) unfolding get_feature_None_model by auto
qed

lemma resolve_args_terminates:
  assumes step: "\<And>feature st ins ex. grown_by_loads env st0 st \<Longrightarrow> rank feature < depth \<Longrightarrow>
      terminates_well env st0 (resolve_feature depth env feature (st, ins, ex))"
  shows "grown_by_loads env st0 st \<Longrightarrow>
     (\<forall>a\<in>set args. a \<notin> set (group_by_list env) \<longrightarrow> rank a < depth) \<Longrightarrow>
     terminates_well env st0 (resolve_args depth env args (st, ins, ex))"
proof (induction args arbitrary: st ins ex)
  case Nil
  then show ?case by (simp add: terminates_well_def)
next
  case (Cons a args)
  show ?case
  proof (cases "a \<in> set (group_by_list env)")
    case True
    then show ?thesis using Cons by simp
  next
    case False
    then have "rank a < depth" using Cons.prems(2) by simp
    from step [OF Cons.prems(1) this, of ins ex] show ?thesis
    proof (cases "resolve_feature depth env a (st, ins, ex)")
      case (Inl e)
      then show ?thesis using False \<open>terminates_well env st0 (resolve_feature depth env a (st, ins, ex))\<close>
        by (simp add: terminates_well_def)
    next
      case (Inr acc')
      obtain st' ins' ex' where acc': "acc' = (st', ins', ex')" by (cases acc') auto
      have g: "grown_by_loads env st0 st'"
        using Inr acc' \<open>terminates_well env st0 (resolve_feature depth env a (st, ins, ex))\<close>
        by (simp add: terminates_well_def)
      have "terminates_well env st0 (resolve_args depth env args (st', ins', ex'))"
        using Cons.IH [OF g] Cons.prems(2) by simp
      then show ?thesis using False Inr acc' by simp
    qed
  qed
qed

lemma resolve_feature_terminates:
  assumes wr: "well_ranked env st0 rank"
  shows "grown_by_loads env st0 st \<Longrightarrow> rank feature < depth \<Longrightarrow>
     terminates_well env st0 (resolve_feature depth env feature (st, ins, ex))"
proof (induction depth arbitrary: feature st ins ex)
  case 0
  then show ?case by simp
next
  case (Suc depth)
  have cm: "current_model st = current_model st0"
    using Suc.prems(1) by (simp add: grown_by_loads_def)
  show ?case
  proof (cases "feature \<in> set (available_cols env)
                \<or> (\<not> has_feature feature st \<and> feature \<notin> set (feat_idx env))")
    case True
    then show ?thesis using Suc.prems(1) by (auto simp: terminates_well_def)
  next
    case False
    then have na: "feature \<notin> set (available_cols env)"
      and reg: "has_feature feature st \<or> feature \<in> set (feat_idx env)" by auto
    define r1 where "r1 = (if \<not> has_feature feature st
               then load_from_filesystem (disk_tree env) (env_model env) feature st
               else Inr st)"
    show ?thesis
    proof (cases r1)
      case (Inl e)
      then have nh: "\<not> has_feature feature st" and
        l: "load_from_filesystem (disk_tree env) (env_model env) feature st = Inl e"
        by (auto simp: r1_def split: if_splits)
      then have "disk_def env feature = None" and "e = FileNotFoundError feature"
        by (auto simp: load_from_filesystem_eq split: option.splits)
      moreover have "feature \<in> set (feat_idx env)" using reg nh by simp
      ultimately have "e \<noteq> RecursionError \<and> \<not> loads_succeed env st0"
        by (auto simp: loads_succeed_def)
      then show ?thesis using na reg Inl by (auto simp: terminates_well_def r1_def)
    next
      case (Inr st1)
      have g1: "grown_by_loads env st0 st1"
        and some: "get_feature feature None st1 = None \<Longrightarrow> \<not> loads_succeed env st0"
      proof -
        show "grown_by_loads env st0 st1"
        proof (cases "has_feature feature st")
          case True
          then show ?thesis using Inr Suc.prems(1) by (simp add: r1_def)
        next
          case nh: False
          then have "load_from_filesystem (disk_tree env) (env_model env) feature st = Inr st1"
            using Inr by (simp add: r1_def)
          from grown_load [OF _ nh this] reg nh Suc.prems(1) show ?thesis
            by (blast intro: grown_trans)
        qed
      next
        assume n: "get_feature feature None st1 = None"
        show "\<not> loads_succeed env st0"
        proof (cases "has_feature feature st")
          case True
          then have "st1 = st" using Inr by (simp add: r1_def)
          then show ?thesis using get_feature_has [OF True] n by simp
        next
          case nh: False
          then have l: "load_from_filesystem (disk_tree env) (env_model env) feature st = Inr st1"
            using Inr by (simp add: r1_def)
          have fi: "feature \<in> set (feat_idx env)" using reg nh by simp
          from grown_load [OF fi nh l] have
            a: "features st1 (load_key env st feature) \<noteq> None"
            and b: "current_model st1 = current_model st"
            by (auto simp: grown_by_loads_def)
          show ?thesis
          proof
            assume "loads_succeed env st0"
            then have "current_model st = Some (env_model env)"
              using fi cm by (auto simp: loads_succeed_def)
            from get_feature_loaded [OF a b this] n show False by simp
          qed
        qed
      qed
      show ?thesis
      proof (cases "get_feature feature None st1")
        case None
        then show ?thesis using na reg Inr some by (auto simp: terminates_well_def r1_def)
      next
        case (Some fd)
        from grown_consulted [OF g1 Some] have "fd \<in> consulted_defs env st0 feature" .
        then have rk: "\<forall>a\<in>set (arg_list fd). a \<notin> set (group_by_list env) \<longrightarrow> rank a < depth"
          using wr na Suc.prems(2) unfolding well_ranked_def by fastforce
        have t: "terminates_well env st0 (resolve_args depth env (arg_list fd) (st1, ins, ex))"
          by (rule resolve_args_terminates [OF Suc.IH g1 rk])
        show ?thesis using na reg Inr Some t
          by (auto simp: terminates_well_def r1_def add_exec_def split: sum.splits)
      qed
    qed
  qed
qed

lemma resolve_outputs_terminates:
  assumes wr: "well_ranked env st0 rank"
  shows "grown_by_loads env st0 st \<Longrightarrow> (\<forall>f\<in>set output_cols. rank f < room) \<Longrightarrow>
     terminates_well env st0 (resolve_outputs room env output_cols (st, ins, ex))"
proof (induction output_cols arbitrary: st ins ex)
  case Nil
  then show ?case by (simp add: terminates_well_def)
next
  case (Cons f fs)
  then have "rank f < room" by simp
  from resolve_feature_terminates [OF wr Cons.prems(1) this, of ins ex]
  have t: "terminates_well env st0 (resolve_feature room env f (st, ins, ex))" .
  show ?case
  proof (cases "resolve_feature room env f (st, ins, ex)")
    case (Inl e)
    then show ?thesis using t by (simp add: terminates_well_def)
  next
    case (Inr acc')
    obtain st' ins' ex' where acc': "acc' = (st', ins', ex')" by (cases acc') auto
    have g: "grown_by_loads env st0 st'" using Inr acc' t by (simp add: terminates_well_def)
    have "terminates_well env st0 (resolve_outputs room env fs (st', ins', ex'))"
      using Cons.IH [OF g] Cons.prems(2) by simp
    then show ?thesis using Inr acc' by simp
  qed
qed

lemma cyclic_loop:
  assumes "features st ''f'' = Some (PyCallable [''f''] None)" and "current_model st = None"
    and "available_cols env = []" and "group_by_list env = []"
  shows "resolve_feature depth env ''f'' (st, ins, ex) = Inl RecursionError"
proof (induction depth arbitrary: ins ex)
  case 0
  show ?case by simp
next
  case (Suc depth)
  have h: "has_feature ''f'' st" using assms(1) by (simp add: has_feature_def dom_def)
  have g: "get_feature ''f'' None st = Some (PyCallable [''f''] None)"
    using assms(1,2) by (simp add: get_feature_None_model scoped_key_def)
  show ?case using h g assms(3,4) Suc.IH by (simp add: arg_list_def)
qed

text \<open>
  C3, as stated, fails: resolution has no guard against cycles. In a store whose only
  feature lists itself as its argument, every activation makes the same call again, and
  what the caller gets is Python's \<open>RecursionError\<close>, not an execution order:
  whatever room the stack has (\<open>cyclic_loop\<close>), and so with room for 1000 nested
  activations, which is more than the interpreter's usual limit leaves.
\<close>

theorem resolve_cycle_counterexample:
  "resolve_dependencies 1000 no_listing no_disk [''f''] [] GbNone ''m'' [] cyclic_store
     = Inl RecursionError"
proof -
  have "resolve_feature 1000
          \<lparr>available_cols = [], group_by_list = [], feat_idx = [], env_model = ''m'', disk_tree = no_disk\<rparr>
          ''f'' (cyclic_store\<lparr>feature_index := [''m'' \<mapsto> []]\<rparr>, [], []) = Inl RecursionError"
    by (rule cyclic_loop) (simp_all add: cyclic_store_def)
  then show ?thesis
    by (simp add: resolve_dependencies_def get_feature_index_def no_listing_def cyclic_store_def)
qed

lemma well_ranked_cong:
  "features st' = features st \<Longrightarrow> current_model st' = current_model st \<Longrightarrow>
     well_ranked env st' rank = well_ranked env st rank"
  by (simp add: well_ranked_def consulted_defs_def load_key_def)

lemma loads_succeed_cong:
  "current_model st' = current_model st \<Longrightarrow> loads_succeed env st' = loads_succeed env st"
  by (simp add: loads_succeed_def)

lemma get_feature_index_frame:
  "get_feature_index listing model st = (idx, st0) \<Longrightarrow>
     features st0 = features st \<and> current_model st0 = current_model st"
  by (auto simp: get_feature_index_def split: option.splits)

lemma chain_well_ranked: "well_ranked chain_env chain_store chain_rank"
  by (auto simp: well_ranked_def consulted_defs_def chain_env_def chain_store_def chain_rank_def
        scoped_key_def arg_list_def split: if_splits)

lemma chain_index: "get_feature_index no_listing ''test_model'' chain_store
    = ([], chain_store\<lparr>feature_index := [''test_model'' \<mapsto> []]\<rparr>)"
  by (simp add: get_feature_index_def no_listing_def chain_store_def)

lemma chain_run:
  "resolve_dependencies (Suc (Suc (Suc 0))) no_listing no_disk [''derived_feature''] [''col1'', ''col2'']
     GbNone ''test_model'' [] chain_store
   = Inr (chain_plan, chain_store\<lparr>feature_index := [''test_model'' \<mapsto> []]\<rparr>)"
  by (simp add: resolve_dependencies_def chain_index chain_plan_def)
     (simp add: chain_store_def has_feature_def get_feature_def py_or_def scoped_key_def
        arg_list_def add_input_def add_exec_def)

text \<open>
  C3, amended. When the dependency relation of the definitions resolution can consult is
  acyclic (\<open>well_ranked\<close>) and the stack has room for more nested activations of
  \<open>_resolve_feature\<close> than the rank of every requested output,
  \<open>resolve_dependencies\<close> does not run out of stack: it raises no
  \<open>RecursionError\<close>; and when, moreover, every indexed feature loads and is visible
  under the current model, it returns an execution plan.
\<close>

theorem resolve_dependencies_acyclic:
  assumes env: "env = \<lparr>available_cols = available, group_by_list = normalize_to_list gb,
                        feat_idx = fst (get_feature_index listing model st),
                        env_model = model, disk_tree = dk\<rparr>"
    and wr: "well_ranked env st rank"
    and lim: "\<forall>f\<in>set output_cols. rank f < room"
  shows "resolve_dependencies room listing dk output_cols available gb model external_data st
           \<noteq> Inl RecursionError
     \<and> (loads_succeed env st \<longrightarrow>
          (\<exists>plan st'. resolve_dependencies room listing dk output_cols available gb model
                         external_data st = Inr (plan, st')))"
proof -
  obtain idx st0 where gi: "get_feature_index listing model st = (idx, st0)"
    by (cases "get_feature_index listing model st") auto
  note fr = get_feature_index_frame [OF gi]
  have env': "env = \<lparr>available_cols = available, group_by_list = normalize_to_list gb,
                        feat_idx = idx, env_model = model, disk_tree = dk\<rparr>"
    using env gi by simp
  have wr0: "well_ranked env st0 rank"
    using wr well_ranked_cong [of st0 st env rank] fr by blast
  have ls: "loads_succeed env st0 = loads_succeed env st"
    using loads_succeed_cong [of st0 st env] fr by blast
  from resolve_outputs_terminates [OF wr0 grown_refl lim, of "[]" "[]"]
  have t: "terminates_well env st0 (resolve_outputs room env output_cols (st0, [], []))" .
  have rd: "resolve_dependencies room listing dk output_cols available gb model external_data st =
     (case resolve_outputs room env output_cols (st0, [], []) of
           Inl e \<Rightarrow> Inl e
         | Inr (st', input_cols, ex) \<Rightarrow>
             (let (ext_cols_dict, ext_cols_list) = extract_external_columns input_cols external_data
              in Inr (\<lparr>plan_input_cols = input_cols, plan_exec_seq = ex,
                       plan_ext_dict = ext_cols_dict, plan_ext_list = ext_cols_list\<rparr>, st')))"
    unfolding resolve_dependencies_def gi env' by simp
  show ?thesis
  proof (cases "resolve_outputs room env output_cols (st0, [], [])")
    case (Inl e)
    then show ?thesis using t rd ls by (simp add: terminates_well_def)
  next
    case (Inr acc)
    obtain st' ins ex where acc: "acc = (st', ins, ex)" by (cases acc) auto
    obtain d l where x: "extract_external_columns ins external_data = (d, l)"
      by (cases "extract_external_columns ins external_data") auto
    have "resolve_dependencies room listing dk output_cols available gb model external_data st =
        Inr (\<lparr>plan_input_cols = ins, plan_exec_seq = ex, plan_ext_dict = d, plan_ext_list = l\<rparr>, st')"
      unfolding rd Inr acc by (simp add: x)
    then show ?thesis by simp
  qed
qed

theorem resolve_dependencies_acyclic_witness:
  "resolve_dependencies (Suc (Suc (Suc 0))) no_listing no_disk [''derived_feature'']
     [''col1'', ''col2''] GbNone ''test_model'' [] chain_store
   = Inr (chain_plan, chain_store\<lparr>feature_index := [''test_model'' \<mapsto> []]\<rparr>)"
proof -
  have e: "chain_env = \<lparr>available_cols = [''col1'', ''col2''], group_by_list = normalize_to_list GbNone,
                        feat_idx = fst (get_feature_index no_listing ''test_model'' chain_store),
                        env_model = ''test_model'', disk_tree = no_disk\<rparr>"
    by (simp add: chain_env_def chain_index)
  have l: "\<forall>f\<in>set [''derived_feature'']. chain_rank f < Suc (Suc (Suc 0))"
    by (simp add: chain_rank_def)
  have s: "loads_succeed chain_env chain_store"
    by (simp add: loads_succeed_def chain_env_def)
  from resolve_dependencies_acyclic [OF e chain_well_ranked l, of "[]"] s
  have "\<exists>plan st'. resolve_dependencies (Suc (Suc (Suc 0))) no_listing no_disk [''derived_feature'']
        [''col1'', ''col2''] GbNone ''test_model'' [] chain_store = Inr (plan, st')"
    by blast
  then show ?thesis using chain_run by simp
qed

subsection \<open>Resolution: the order of the execution sequence\<close>

lemma alias_run:
  "resolve_dependencies (Suc (Suc n)) alias_listing alias_disk [''f'', ''m:g''] [] GbNone ''m'' []
     alias_store = Inr (alias_plan, alias_final)"
  by (simp add: resolve_dependencies_def get_feature_index_def alias_listing_def alias_store_def
        has_feature_def load_from_filesystem_def alias_disk_def store_feature_def get_feature_def
        py_or_def scoped_key_def alias_def_f_def alias_def_g_def arg_list_def add_input_def
        add_exec_def alias_plan_def alias_final_def)

text \<open>
  C2. The execution sequence is meant to be a topological order: every argument of a
  member that is itself a member, and neither an input column nor a group-by column,
  comes before it. The resolver breaks this when a store key collides with a name.
  Loading \<open>g\<close> for the model \<open>m\<close> files it under the key \<open>m:g\<close>, and
  \<open>has_feature\<close> looks names up among the keys: the argument \<open>m:g\<close> of \<open>f\<close>,
  unknown when \<open>f\<close> is resolved, is a registered feature when it is requested
  afterwards, and lands in \<open>exec_seq\<close> after \<open>f\<close>.
\<close>

theorem alias_breaks_order:
  "resolve_dependencies 1000 alias_listing alias_disk [''f'', ''m:g''] [] GbNone ''m'' []
     alias_store = Inr (alias_plan, alias_final)
   \<and> plan_exec_seq alias_plan = [''g'', ''f'', ''m:g'']
   \<and> get_feature ''f'' None alias_final = Some (PyDict ''def f(a, b): return a + b'' (Some [''m:g'', ''g'']))"
proof -
  have "(1000::nat) = Suc (Suc 998)" by simp
  then have "resolve_dependencies 1000 alias_listing alias_disk [''f'', ''m:g''] [] GbNone ''m'' []
     alias_store = Inr (alias_plan, alias_final)"
    using alias_run [of 998] by simp
  then show ?thesis
    by (simp add: alias_plan_def alias_final_def get_feature_def py_or_def scoped_key_def alias_def_f_def)
qed

lemma colon_split:
  "colon_free c \<Longrightarrow> colon_free m \<Longrightarrow> c @ '':'' @ f = m @ '':'' @ g \<Longrightarrow> c = m \<and> f = g"
proof (induction c arbitrary: m)
  case Nil
  then show ?case by (cases m) (auto simp: colon_free_def)
next
  case (Cons x c)
  then show ?case by (cases m) (auto simp: colon_free_def)
qed

lemma colon_not_scoped: "colon_free f \<Longrightarrow> f \<noteq> m @ '':'' @ g"
  by (auto simp: colon_free_def)

lemma load_key_forms:
  "load_key env st g = env_model env @ '':'' @ g \<and> env_model env \<noteq> []
   \<or> (\<exists>c. current_model st = Some c \<and> c \<noteq> [] \<and> env_model env = [] \<and> load_key env st g = c @ '':'' @ g)
   \<or> (load_key env st g = g \<and> env_model env = [] \<and> \<not> truthy (current_model st))"
  by (cases "current_model st") (auto simp: load_key_def py_or_def scoped_key_def)

lemma load_key_inj:
  "load_key env st f = load_key env st g \<Longrightarrow> f = g"
  by (auto simp: load_key_def scoped_key_def split: if_splits)

lemma load_key_plain:
  assumes "colon_free f" and "f = load_key env st g"
  shows "f = g \<and> load_key env st f = f"
  using load_key_forms [of env st g] assms colon_not_scoped [of f]
  by (auto simp: load_key_def py_or_def scoped_key_def)

lemma load_key_scoped:
  assumes nm: "names_ok env st" and "truthy (current_model st)"
    and "scoped_key (current_model st) f = load_key env st g"
  shows "f = g \<and> load_key env st f = scoped_key (current_model st) f"
proof -
  obtain c where c: "current_model st = Some c" "c \<noteq> []" "colon_free c"
    using assms(2) nm by (cases "current_model st") (auto simp: names_ok_def)
  have m: "colon_free (env_model env)" using nm by (simp add: names_ok_def)
  have k: "c @ '':'' @ f = load_key env st g" using assms(3) c by (simp add: scoped_key_def)
  show ?thesis
  proof (cases "env_model env = []")
    case True
    then have "load_key env st g = c @ '':'' @ g" "load_key env st f = c @ '':'' @ f"
      using c by (simp_all add: load_key_def py_or_def scoped_key_def)
    then show ?thesis using k c by (simp add: scoped_key_def)
  next
    case False
    then have lg: "load_key env st g = env_model env @ '':'' @ g"
      and lf: "load_key env st f = env_model env @ '':'' @ f"
      by (simp_all add: load_key_def py_or_def scoped_key_def)
    from colon_split [OF c(3) m] k lg have "c = env_model env \<and> f = g" by simp
    then show ?thesis using lf c by (simp add: scoped_key_def)
  qed
qed

lemma grown_key:
  assumes g: "grown_by_loads env st st'" and nm: "names_ok env st"
    and cf: "colon_free f" and se: "settled env st f"
    and k: "k = f \<or> k = scoped_key (current_model st) f"
  shows "features st' k = features st k"
proof -
  from g have "features st' k = features st k \<or>
           (\<exists>g\<in>set (feat_idx env). \<not> has_feature g st \<and> k = load_key env st g \<and>
                features st' k = disk_def env g \<and> disk_def env g \<noteq> None)"
    by (simp add: grown_by_loads_def)
  then show ?thesis
  proof
    assume "features st' k = features st k"
    then show ?thesis .
  next
    assume "\<exists>g\<in>set (feat_idx env). \<not> has_feature g st \<and> k = load_key env st g \<and>
                features st' k = disk_def env g \<and> disk_def env g \<noteq> None"
    then obtain h where h: "h \<in> set (feat_idx env)" "\<not> has_feature h st" "k = load_key env st h"
      "features st' k = disk_def env h" "disk_def env h \<noteq> None" by blast
    have "f = h \<and> load_key env st f = k"
    proof (cases "k = f")
      case True
      then show ?thesis using load_key_plain [OF cf, of env st h] h(3) by simp
    next
      case False
      then have ks: "k = scoped_key (current_model st) f" using k by simp
      then have "truthy (current_model st)" using False by (auto simp: scoped_key_def split: if_splits)
      from load_key_scoped [OF nm this, of f h] ks h(3) show ?thesis by simp
    qed
    then have fh: "f = h" and lk: "load_key env st f = k" by blast+
    from se fh h(2) have "features st (load_key env st f) = disk_def env f"
      by (simp add: settled_def)
    then show ?thesis using lk fh h(4) by simp
  qed
qed

lemma grown_get_feature:
  assumes "grown_by_loads env st st'" and "names_ok env st" and "colon_free f" and "settled env st f"
  shows "get_feature f None st' = get_feature f None st"
proof -
  have cm: "current_model st' = current_model st" using assms(1) by (simp add: grown_by_loads_def)
  have a: "features st' f = features st f"
    by (rule grown_key [OF assms]) simp
  have b: "features st' (scoped_key (current_model st) f) = features st (scoped_key (current_model st) f)"
    by (rule grown_key [OF assms]) simp
  show ?thesis unfolding get_feature_None_model cm using a b by simp
qed

lemma grown_settled:
  assumes g: "grown_by_loads env st st'" and se: "settled env st f"
  shows "settled env st' f"
proof (cases "has_feature f st")
  case True
  then show ?thesis using grown_has_feature [OF g] by (simp add: settled_def)
next
  case False
  then have s: "features st (load_key env st f) = disk_def env f" and d: "disk_def env f \<noteq> None"
    using se by (simp_all add: settled_def)
  have cm: "current_model st' = current_model st" using g by (simp add: grown_by_loads_def)
  then have lk: "load_key env st' f = load_key env st f" by (simp add: load_key_def)
  from g have "features st' (load_key env st f) = features st (load_key env st f) \<or>
           (\<exists>h\<in>set (feat_idx env). \<not> has_feature h st \<and> load_key env st f = load_key env st h \<and>
                features st' (load_key env st f) = disk_def env h \<and> disk_def env h \<noteq> None)"
    by (simp add: grown_by_loads_def)
  then have "features st' (load_key env st f) = disk_def env f"
    using s by (auto dest: load_key_inj)
  then show ?thesis using d lk by (simp add: settled_def)
qed

lemma grown_registered:
  assumes g: "grown_by_loads env st st'" and cf: "colon_free d" and r: "registered env st' d"
  shows "registered env st d"
proof (cases "d \<in> set (feat_idx env)")
  case True
  then show ?thesis by (simp add: registered_def)
next
  case False
  then have h: "features st' d \<noteq> None" using r by (auto simp: registered_def has_feature_def)
  from g have "features st' d = features st d \<or>
           (\<exists>h\<in>set (feat_idx env). \<not> has_feature h st \<and> d = load_key env st h \<and>
                features st' d = disk_def env h \<and> disk_def env h \<noteq> None)"
    by (simp add: grown_by_loads_def)
  then show ?thesis
  proof
    assume "features st' d = features st d"
    then show ?thesis using h by (auto simp: registered_def has_feature_def)
  next
    assume "\<exists>h\<in>set (feat_idx env). \<not> has_feature h st \<and> d = load_key env st h \<and>
                features st' d = disk_def env h \<and> disk_def env h \<noteq> None"
    then obtain h where "h \<in> set (feat_idx env)" "d = load_key env st h" by blast
    then show ?thesis using load_key_plain [OF cf, of env st h] False by simp
  qed
qed

lemma grown_registered_mono:
  "grown_by_loads env st st' \<Longrightarrow> registered env st f \<Longrightarrow> registered env st' f"
  using grown_has_feature by (auto simp: registered_def)

lemma grown_names_ok: "grown_by_loads env st st' \<Longrightarrow> names_ok env st \<Longrightarrow> names_ok env st'"
  by (simp add: names_ok_def grown_by_loads_def)

lemma grown_args_colon_free:
  assumes g: "grown_by_loads env st st'" and nm: "names_ok env st" and a: "args_colon_free st"
  shows "args_colon_free st'"
  unfolding args_colon_free_def
proof (intro allI impI)
  fix k fd assume f: "features st' k = Some fd"
  from g have "features st' k = features st k \<or>
           (\<exists>h\<in>set (feat_idx env). \<not> has_feature h st \<and> k = load_key env st h \<and>
                features st' k = disk_def env h \<and> disk_def env h \<noteq> None)"
    by (simp add: grown_by_loads_def)
  then show "\<forall>a\<in>set (arg_list fd). colon_free a"
  proof
    assume "features st' k = features st k"
    then have "features st k = Some fd" using f by simp
    then show ?thesis using a unfolding args_colon_free_def by blast
  next
    assume "\<exists>h\<in>set (feat_idx env). \<not> has_feature h st \<and> k = load_key env st h \<and>
                features st' k = disk_def env h \<and> disk_def env h \<noteq> None"
    then obtain h where "h \<in> set (feat_idx env)" "disk_def env h = Some fd" using f by auto
    then show ?thesis using nm by (auto simp: names_ok_def)
  qed
qed

lemma get_feature_in_store:
  "get_feature f None st = Some fd \<Longrightarrow> \<exists>k. features st k = Some fd"
  unfolding get_feature_None_model by (auto split: if_splits)

lemma plan_inv_grown:
  assumes p: "plan_inv env st ex" and g: "grown_by_loads env st st'"
    and nm: "names_ok env st" and a: "args_colon_free st"
  shows "plan_inv env st' ex"
  unfolding plan_inv_def
proof (intro conjI ballI allI impI)
  show "distinct ex" using p by (simp add: plan_inv_def)
next
  fix f assume f: "f \<in> set ex"
  then have q: "f \<notin> set (available_cols env)" "colon_free f" "registered env st f" "settled env st f"
    using p by (auto simp: plan_inv_def)
  show "f \<notin> set (available_cols env)" by (rule q(1))
  show "colon_free f" by (rule q(2))
  show "registered env st' f" by (rule grown_registered_mono [OF g q(3)])
  show "settled env st' f" by (rule grown_settled [OF g q(4)])
next
  fix i fd d
  assume i: "i < length ex" and gf: "get_feature (ex ! i) None st' = Some fd"
    and d: "d \<in> set (arg_list fd)" and ng: "d \<notin> set (group_by_list env)"
  have m: "ex ! i \<in> set ex" using i by simp
  then have q: "colon_free (ex ! i)" "settled env st (ex ! i)"
    using p by (auto simp: plan_inv_def)
  have gf0: "get_feature (ex ! i) None st = Some fd"
    using grown_get_feature [OF g nm q] gf by simp
  then have "d \<in> set (take i ex) \<or> d \<in> set (available_cols env) \<or> \<not> registered env st d"
    using p i d ng unfolding plan_inv_def by blast
  moreover have "colon_free d"
    using get_feature_in_store [OF gf0] a d by (auto simp: args_colon_free_def)
  ultimately show "d \<in> set (take i ex) \<or> d \<in> set (available_cols env) \<or> \<not> registered env st' d"
    using grown_registered [OF g] by blast
qed

lemma index_of_nth: "x \<in> set xs \<Longrightarrow> index_of xs x < length xs \<and> xs ! index_of xs x = x"
  by (induction xs) (auto simp: index_of_def)

lemma index_of_take: "d \<in> set (take j xs) \<Longrightarrow> index_of xs d < j"
proof (induction xs arbitrary: j)
  case Nil
  then show ?case by simp
next
  case (Cons x xs)
  then show ?case by (cases j) (auto simp: index_of_def)
qed

lemma resolve_args_order:
  assumes step: "\<And>feature st ins ex st' ins' ex'.
      names_ok env st \<Longrightarrow> plan_inv env st ex \<Longrightarrow> args_colon_free st \<Longrightarrow> colon_free feature \<Longrightarrow>
      resolve_feature depth env feature (st, ins, ex) = Inr (st', ins', ex') \<Longrightarrow>
      plan_inv env st' ex' \<and> args_colon_free st' \<and> grown_by_loads env st st'
        \<and> (\<exists>suf. ex' = ex @ suf)
        \<and> (feature \<in> set ex' \<or> feature \<in> set (available_cols env) \<or> \<not> registered env st' feature)"
  shows "names_ok env st \<Longrightarrow> plan_inv env st ex \<Longrightarrow> args_colon_free st \<Longrightarrow>
     (\<forall>a\<in>set args. colon_free a) \<Longrightarrow>
     resolve_args depth env args (st, ins, ex) = Inr (st', ins', ex') \<Longrightarrow>
     plan_inv env st' ex' \<and> args_colon_free st' \<and> grown_by_loads env st st'
       \<and> (\<exists>suf. ex' = ex @ suf)
       \<and> (\<forall>a\<in>set args. a \<notin> set (group_by_list env) \<longrightarrow>
             a \<in> set ex' \<or> a \<in> set (available_cols env) \<or> \<not> registered env st' a)"
proof (induction args arbitrary: st ins ex)
  case Nil
  then show ?case by (simp add: grown_refl)
next
  case (Cons a args)
  have cfs: "\<forall>b\<in>set args. colon_free b" and cfa: "colon_free a" using Cons.prems(4) by simp_all
  show ?case
  proof (cases "a \<in> set (group_by_list env)")
    case True
    then have "resolve_args depth env args (st, ins, ex) = Inr (st', ins', ex')"
      using Cons.prems(5) by simp
    from Cons.IH [OF Cons.prems(1-3) cfs this] True show ?thesis by simp
  next
    case False
    then obtain st1 ins1 ex1 where
      r1: "resolve_feature depth env a (st, ins, ex) = Inr (st1, ins1, ex1)"
      and r2: "resolve_args depth env args (st1, ins1, ex1) = Inr (st', ins', ex')"
      using Cons.prems(5) by (auto split: sum.splits)
    from step [OF Cons.prems(1-3) cfa r1] obtain suf1 where
      p1: "plan_inv env st1 ex1" and a1: "args_colon_free st1" and g1: "grown_by_loads env st st1"
      and s1: "ex1 = ex @ suf1"
      and d1: "a \<in> set ex1 \<or> a \<in> set (available_cols env) \<or> \<not> registered env st1 a"
      by blast
    have n1: "names_ok env st1" by (rule grown_names_ok [OF g1 Cons.prems(1)])
    from Cons.IH [OF n1 p1 a1 cfs r2] obtain suf2 where
      p2: "plan_inv env st' ex'" and a2: "args_colon_free st'" and g2: "grown_by_loads env st1 st'"
      and s2: "ex' = ex1 @ suf2"
      and d2: "\<forall>b\<in>set args. b \<notin> set (group_by_list env) \<longrightarrow>
             b \<in> set ex' \<or> b \<in> set (available_cols env) \<or> \<not> registered env st' b"
      by blast
    have da: "a \<in> set ex' \<or> a \<in> set (available_cols env) \<or> \<not> registered env st' a"
      using d1 s2 grown_registered [OF g2 cfa] by auto
    have "\<exists>suf. ex' = ex @ suf" using s1 s2 by simp
    then show ?thesis using p2 a2 grown_trans [OF g1 g2] da d2 by simp
  qed
qed

lemma plan_inv_snoc:
  assumes p: "plan_inv env st ex" and nin: "f \<notin> set ex"
    and na: "f \<notin> set (available_cols env)" and cf: "colon_free f"
    and reg: "registered env st f" and se: "settled env st f"
    and deps: "\<forall>fd. get_feature f None st = Some fd \<longrightarrow>
         (\<forall>d\<in>set (arg_list fd). d \<notin> set (group_by_list env) \<longrightarrow>
            d \<in> set ex \<or> d \<in> set (available_cols env) \<or> \<not> registered env st d)"
  shows "plan_inv env st (ex @ [f])"
  unfolding plan_inv_def
proof (intro conjI ballI allI impI)
  show "distinct (ex @ [f])" using p nin by (simp add: plan_inv_def)
next
  fix g assume "g \<in> set (ex @ [f])"
  then have "g \<in> set ex \<or> g = f" by auto
  then have q: "g \<notin> set (available_cols env) \<and> colon_free g \<and> registered env st g \<and> settled env st g"
    using p na cf reg se by (auto simp: plan_inv_def)
  show "g \<notin> set (available_cols env)" using q by simp
  show "colon_free g" using q by simp
  show "registered env st g" using q by simp
  show "settled env st g" using q by simp
next
  fix i fd d
  assume i: "i < length (ex @ [f])" and gf: "get_feature ((ex @ [f]) ! i) None st = Some fd"
    and d: "d \<in> set (arg_list fd)" and ng: "d \<notin> set (group_by_list env)"
  show "d \<in> set (take i (ex @ [f])) \<or> d \<in> set (available_cols env) \<or> \<not> registered env st d"
  proof (cases "i < length ex")
    case True
    then have "get_feature (ex ! i) None st = Some fd" using gf by (simp add: nth_append)
    then have "d \<in> set (take i ex) \<or> d \<in> set (available_cols env) \<or> \<not> registered env st d"
      using p True d ng unfolding plan_inv_def by blast
    then show ?thesis using True by auto
  next
    case False
    then have ie: "i = length ex" using i by simp
    then have "get_feature f None st = Some fd" using gf by simp
    then have "d \<in> set ex \<or> d \<in> set (available_cols env) \<or> \<not> registered env st d"
      using deps d ng by blast
    then show ?thesis using ie by auto
  qed
qed

lemma resolve_feature_order:
  "names_ok env st \<Longrightarrow> plan_inv env st ex \<Longrightarrow> args_colon_free st \<Longrightarrow> colon_free feature \<Longrightarrow>
     resolve_feature depth env feature (st, ins, ex) = Inr (st', ins', ex') \<Longrightarrow>
     plan_inv env st' ex' \<and> args_colon_free st' \<and> grown_by_loads env st st'
       \<and> (\<exists>suf. ex' = ex @ suf)
       \<and> (feature \<in> set ex' \<or> feature \<in> set (available_cols env) \<or> \<not> registered env st' feature)"
proof (induction depth arbitrary: feature st ins ex st' ins' ex')
  case 0
  then show ?case by simp
next
  case (Suc depth)
  note nm = Suc.prems(1) and p = Suc.prems(2) and a = Suc.prems(3) and cf = Suc.prems(4)
    and run = Suc.prems(5)
  show ?case
  proof (cases "feature \<in> set (available_cols env)
                \<or> (\<not> has_feature feature st \<and> feature \<notin> set (feat_idx env))")
    case True
    then have "st' = st" "ex' = ex" using run by (auto split: if_splits)
    then show ?thesis using True p a by (auto simp: grown_refl registered_def)
  next
    case False
    then have na: "feature \<notin> set (available_cols env)"
      and reg: "has_feature feature st \<or> feature \<in> set (feat_idx env)" by auto
    define r1 where "r1 = (if \<not> has_feature feature st
               then load_from_filesystem (disk_tree env) (env_model env) feature st
               else Inr st)"
    from run na reg obtain st1 fd st2 ins2 ex2 where
      l: "r1 = Inr st1" and gf: "get_feature feature None st1 = Some fd"
      and ra: "resolve_args depth env (arg_list fd) (st1, ins, ex) = Inr (st2, ins2, ex2)"
      and res: "st' = st2" "ex' = add_exec feature ex2"
      by (auto simp: r1_def split: sum.splits option.splits if_splits)
    have g1: "grown_by_loads env st st1" and se1: "settled env st1 feature"
    proof -
      show "grown_by_loads env st st1"
      proof (cases "has_feature feature st")
        case True
        then show ?thesis using l by (simp add: r1_def grown_refl)
      next
        case nh: False
        then have "load_from_filesystem (disk_tree env) (env_model env) feature st = Inr st1"
          using l by (simp add: r1_def)
        from grown_load [OF _ nh this] reg nh show ?thesis by blast
      qed
    next
      show "settled env st1 feature"
      proof (cases "has_feature feature st")
        case True
        then show ?thesis using l by (simp add: r1_def settled_def)
      next
        case nh: False
        then have ld: "load_from_filesystem (disk_tree env) (env_model env) feature st = Inr st1"
          using l by (simp add: r1_def)
        have fi: "feature \<in> set (feat_idx env)" using reg nh by simp
        from grown_load [OF fi nh ld] have
          x: "features st1 (load_key env st feature) = disk_def env feature"
          and y: "disk_def env feature \<noteq> None" and z: "current_model st1 = current_model st"
          by (simp_all add: grown_by_loads_def)
        have "load_key env st1 feature = load_key env st feature" using z by (simp add: load_key_def)
        then show ?thesis using x y by (simp add: settled_def)
      qed
    qed
    have n1: "names_ok env st1" by (rule grown_names_ok [OF g1 nm])
    have p1: "plan_inv env st1 ex" by (rule plan_inv_grown [OF p g1 nm a])
    have a1: "args_colon_free st1" by (rule grown_args_colon_free [OF g1 nm a])
    have cfa: "\<forall>b\<in>set (arg_list fd). colon_free b"
      using get_feature_in_store [OF gf] a1 unfolding args_colon_free_def by blast
    have step: "plan_inv env t' x' \<and> args_colon_free t' \<and> grown_by_loads env t t'
        \<and> (\<exists>suf. x' = x @ suf)
        \<and> (h \<in> set x' \<or> h \<in> set (available_cols env) \<or> \<not> registered env t' h)"
      if "names_ok env t" "plan_inv env t x" "args_colon_free t" "colon_free h"
        "resolve_feature depth env h (t, i, x) = Inr (t', i', x')" for h t i x t' i' x'
      using that by (rule Suc.IH)
    have "plan_inv env st2 ex2 \<and> args_colon_free st2 \<and> grown_by_loads env st1 st2
       \<and> (\<exists>suf. ex2 = ex @ suf)
       \<and> (\<forall>a\<in>set (arg_list fd). a \<notin> set (group_by_list env) \<longrightarrow>
             a \<in> set ex2 \<or> a \<in> set (available_cols env) \<or> \<not> registered env st2 a)"
      using step n1 p1 a1 cfa ra by (rule resolve_args_order)
    then obtain suf where
      p2: "plan_inv env st2 ex2" and a2: "args_colon_free st2" and g2: "grown_by_loads env st1 st2"
      and s2: "ex2 = ex @ suf"
      and d2: "\<forall>b\<in>set (arg_list fd). b \<notin> set (group_by_list env) \<longrightarrow>
             b \<in> set ex2 \<or> b \<in> set (available_cols env) \<or> \<not> registered env st2 b"
      by blast
    have g: "grown_by_loads env st st2" by (rule grown_trans [OF g1 g2])
    show ?thesis
    proof (cases "feature \<in> set ex2")
      case True
      then have "ex' = ex2" using res by (simp add: add_exec_def)
      then show ?thesis using p2 a2 g s2 True res by simp
    next
      case nin: False
      then have e: "ex' = ex2 @ [feature]" using res by (simp add: add_exec_def)
      have gf2: "get_feature feature None st2 = Some fd"
        using grown_get_feature [OF g2 n1 cf se1] gf by simp
      have r2: "registered env st2 feature"
        using reg grown_has_feature [OF g] by (auto simp: registered_def)
      have se2: "settled env st2 feature" by (rule grown_settled [OF g2 se1])
      have "plan_inv env st2 (ex2 @ [feature])"
        by (rule plan_inv_snoc [OF p2 nin na cf r2 se2]) (use gf2 d2 in auto)
      then show ?thesis using e res a2 g s2 by simp
    qed
  qed
qed

lemma resolve_outputs_order:
  "names_ok env st \<Longrightarrow> plan_inv env st ex \<Longrightarrow> args_colon_free st \<Longrightarrow>
     (\<forall>f\<in>set output_cols. colon_free f) \<Longrightarrow>
     resolve_outputs room env output_cols (st, ins, ex) = Inr (st', ins', ex') \<Longrightarrow>
     plan_inv env st' ex'"
proof (induction output_cols arbitrary: st ins ex)
  case Nil
  then show ?case by simp
next
  case (Cons f fs)
  then obtain st1 ins1 ex1 where
    r1: "resolve_feature room env f (st, ins, ex) = Inr (st1, ins1, ex1)"
    and r2: "resolve_outputs room env fs (st1, ins1, ex1) = Inr (st', ins', ex')"
    by (auto split: sum.splits)
  have cf: "colon_free f" and cfs: "\<forall>g\<in>set fs. colon_free g" using Cons.prems(4) by simp_all
  from resolve_feature_order [OF Cons.prems(1-3) cf r1] have
    p1: "plan_inv env st1 ex1" and a1: "args_colon_free st1" and g1: "grown_by_loads env st st1"
    by blast+
  have n1: "names_ok env st1" by (rule grown_names_ok [OF g1 Cons.prems(1)])
  from Cons.IH [OF n1 p1 a1 cfs r2] show ?case .
qed

lemma plan_inv_topological:
  assumes p: "plan_inv env st ex" and f: "f \<in> set ex" and gf: "get_feature f None st = Some fd"
    and d: "d \<in> set (arg_list fd)" and de: "d \<in> set ex" and ng: "d \<notin> set (group_by_list env)"
  shows "index_of ex d < index_of ex f"
proof -
  from index_of_nth [OF f] have i: "index_of ex f < length ex" and n: "ex ! index_of ex f = f"
    by simp_all
  from p i gf d ng n have "d \<in> set (take (index_of ex f) ex) \<or> d \<in> set (available_cols env)
      \<or> \<not> registered env st d"
    unfolding plan_inv_def by metis
  moreover have "d \<notin> set (available_cols env) \<and> registered env st d"
    using p de by (auto simp: plan_inv_def)
  ultimately have "d \<in> set (take (index_of ex f) ex)" by blast
  then show ?thesis by (rule index_of_take)
qed

text \<open>
  Without colons in the names (the model, the current model, the requested outputs and
  the argument names of the definitions in the store and in the indexed folders), no key
  collides with a name, and every plan \<open>resolve_dependencies\<close> returns is in
  topological order: \<open>exec_seq\<close> has no repetition, and every argument of a member's
  definition that is itself a member and not a group-by column has a smaller index.
\<close>

theorem exec_seq_topological_without_colons:
  assumes run: "resolve_dependencies room listing dk output_cols available gb model
                  external_data st = Inr (plan, st')"
    and env: "env = \<lparr>available_cols = available, group_by_list = normalize_to_list gb,
                        feat_idx = fst (get_feature_index listing model st),
                        env_model = model, disk_tree = dk\<rparr>"
    and nm: "names_ok env st" and a: "args_colon_free st"
    and oc: "\<forall>f\<in>set output_cols. colon_free f"
  shows "distinct (plan_exec_seq plan)
    \<and> (\<forall>f\<in>set (plan_exec_seq plan). \<forall>fd. get_feature f None st' = Some fd \<longrightarrow>
         (\<forall>d\<in>set (arg_list fd). d \<in> set (plan_exec_seq plan) \<longrightarrow>
            d \<notin> set (normalize_to_list gb) \<longrightarrow>
            index_of (plan_exec_seq plan) d < index_of (plan_exec_seq plan) f))"
proof -
  obtain idx st0 where gi: "get_feature_index listing model st = (idx, st0)"
    by (cases "get_feature_index listing model st") auto
  note fr = get_feature_index_frame [OF gi]
  have env': "env = \<lparr>available_cols = available, group_by_list = normalize_to_list gb,
                        feat_idx = idx, env_model = model, disk_tree = dk\<rparr>"
    using env gi by simp
  have gb: "group_by_list env = normalize_to_list gb" using env by simp
  have nm0: "names_ok env st0" using nm fr by (simp add: names_ok_def)
  have a0: "args_colon_free st0" using a fr by (simp add: args_colon_free_def)
  have p0: "plan_inv env st0 []" by (simp add: plan_inv_def)
  have rd: "resolve_dependencies room listing dk output_cols available gb model external_data st =
     (case resolve_outputs room env output_cols (st0, [], []) of
           Inl e \<Rightarrow> Inl e
         | Inr (st', input_cols, ex) \<Rightarrow>
             (let (ext_cols_dict, ext_cols_list) = extract_external_columns input_cols external_data
              in Inr (\<lparr>plan_input_cols = input_cols, plan_exec_seq = ex,
                       plan_ext_dict = ext_cols_dict, plan_ext_list = ext_cols_list\<rparr>, st')))"
    unfolding resolve_dependencies_def gi env' by simp
  from run obtain ins ex where ro: "resolve_outputs room env output_cols (st0, [], []) = Inr (st', ins, ex)"
    and pe: "plan_exec_seq plan = ex"
    unfolding rd by (auto split: sum.splits prod.splits)
  have p: "plan_inv env st' ex" by (rule resolve_outputs_order [OF nm0 p0 a0 oc ro])
  have "distinct ex" using p by (simp add: plan_inv_def)
  moreover have "index_of ex d < index_of ex f"
    if "f \<in> set ex" "get_feature f None st' = Some fd" "d \<in> set (arg_list fd)" "d \<in> set ex"
      "d \<notin> set (normalize_to_list gb)" for f fd d
    using plan_inv_topological [OF p that(1-4)] that(5) gb by simp
  ultimately show ?thesis unfolding pe by blast
qed

lemma chain_names_ok: "names_ok chain_env chain_store"
  by (simp add: names_ok_def chain_env_def chain_store_def colon_free_def)

lemma chain_args_colon_free: "args_colon_free chain_store"
  by (auto simp: args_colon_free_def chain_store_def arg_list_def colon_free_def split: if_splits)

theorem exec_seq_topological_without_colons_witness:
  "index_of [''base_feature'', ''derived_feature''] ''base_feature''
     < index_of [''base_feature'', ''derived_feature''] ''derived_feature''"
proof -
  have e: "chain_env = \<lparr>available_cols = [''col1'', ''col2''], group_by_list = normalize_to_list GbNone,
                        feat_idx = fst (get_feature_index no_listing ''test_model'' chain_store),
                        env_model = ''test_model'', disk_tree = no_disk\<rparr>"
    by (simp add: chain_env_def chain_index)
  have o: "\<forall>f\<in>set [''derived_feature'']. colon_free f" by (simp add: colon_free_def)
  have g: "get_feature ''derived_feature'' None (chain_store\<lparr>feature_index := [''test_model'' \<mapsto> []]\<rparr>)
             = Some (PyCallable [''base_feature'', ''col2''] None)"
    by (simp add: get_feature_def py_or_def scoped_key_def chain_store_def)
  from exec_seq_topological_without_colons [OF chain_run e chain_names_ok chain_args_colon_free o]
  have "\<forall>f\<in>set (plan_exec_seq chain_plan). \<forall>fd.
          get_feature f None (chain_store\<lparr>feature_index := [''test_model'' \<mapsto> []]\<rparr>) = Some fd \<longrightarrow>
         (\<forall>d\<in>set (arg_list fd). d \<in> set (plan_exec_seq chain_plan) \<longrightarrow>
            d \<notin> set (normalize_to_list GbNone) \<longrightarrow>
            index_of (plan_exec_seq chain_plan) d < index_of (plan_exec_seq chain_plan) f)"
    by blast
  then have "\<forall>d\<in>set (arg_list (PyCallable [''base_feature'', ''col2''] None)).
            d \<in> set (plan_exec_seq chain_plan) \<longrightarrow> d \<notin> set (normalize_to_list GbNone) \<longrightarrow>
            index_of (plan_exec_seq chain_plan) d
              < index_of (plan_exec_seq chain_plan) ''derived_feature''"
    using g by (simp add: chain_plan_def)
  then show ?thesis by (simp add: arg_list_def chain_plan_def)
qed

end
